theory Spec2Isabelle
  imports Main "HOL-Library.Sublist"
begin

section \<open>Strings and character classes\<close>

text \<open>
  A Python \<^verbatim>\<open>str\<close> is a sequence of Unicode code points, and the patterns of
  \<^verbatim>\<open>app/guards.py\<close> mention the en dash (U+2013), so a string is modelled as the
  list of its code points. ASCII literals are written with \<open>ustr\<close>.
\<close>

type_synonym pystr = "nat list"

definition ustr :: "string \<Rightarrow> pystr" where
  "ustr s = map of_char s"

text \<open>
  The classes \<^verbatim>\<open>\d\<close>, \<^verbatim>\<open>\s\<close> and \<^verbatim>\<open>\w\<close> of a \<^verbatim>\<open>str\<close> pattern are
  Unicode aware. Their ASCII part is written out; beyond ASCII they are the tables of the
  Unicode Character Database 14.0.0 (the one CPython 3.11 ships): the decimal digits
  (category Nd, in runs that start at a digit zero), the white space characters
  (\<^verbatim>\<open>str.isspace\<close>) and the alphanumeric characters (\<^verbatim>\<open>str.isalnum\<close>).
\<close>

definition in_ranges :: "nat \<Rightarrow> (nat \<times> nat) list \<Rightarrow> bool" where
  "in_ranges c rs = list_ex (\<lambda>(lo, hi). lo \<le> c \<and> c \<le> hi) rs"

definition uni_decimal_ranges :: "(nat \<times> nat) list" where
  "uni_decimal_ranges =
  [(1632, 1641), (1776, 1785), (1984, 1993), (2406, 2415), (2534, 2543), (2662, 2671), (2790, 2799), (2918, 2927),
   (3046, 3055), (3174, 3183), (3302, 3311), (3430, 3439), (3558, 3567), (3664, 3673), (3792, 3801), (3872, 3881),
   (4160, 4169), (4240, 4249), (6112, 6121), (6160, 6169), (6470, 6479), (6608, 6617), (6784, 6793), (6800, 6809),
   (6992, 7001), (7088, 7097), (7232, 7241), (7248, 7257), (42528, 42537), (43216, 43225), (43264, 43273), (43472, 43481),
   (43504, 43513), (43600, 43609), (44016, 44025), (65296, 65305), (66720, 66729), (68912, 68921), (69734, 69743), (69872, 69881),
   (69942, 69951), (70096, 70105), (70384, 70393), (70736, 70745), (70864, 70873), (71248, 71257), (71360, 71369), (71472, 71481),
   (71904, 71913), (72016, 72025), (72784, 72793), (73040, 73049), (73120, 73129), (92768, 92777), (92864, 92873), (93008, 93017),
   (120782, 120831), (123200, 123209), (123632, 123641), (125264, 125273), (130032, 130041)]"

definition uni_space_ranges :: "(nat \<times> nat) list" where
  "uni_space_ranges =
  [(133, 133), (160, 160), (5760, 5760), (8192, 8202), (8232, 8233), (8239, 8239),
   (8287, 8287), (12288, 12288)]"

definition uni_alnum_ranges :: "(nat \<times> nat) list" where
  "uni_alnum_ranges =
  [(170, 170), (178, 179), (181, 181), (185, 186), (188, 190), (192, 214), (216, 246), (248, 705),
   (710, 721), (736, 740), (748, 748), (750, 750), (880, 884), (886, 887), (890, 893), (895, 895),
   (902, 902), (904, 906), (908, 908), (910, 929), (931, 1013), (1015, 1153), (1162, 1327), (1329, 1366),
   (1369, 1369), (1376, 1416), (1488, 1514), (1519, 1522), (1568, 1610), (1632, 1641), (1646, 1647), (1649, 1747),
   (1749, 1749), (1765, 1766), (1774, 1788), (1791, 1791), (1808, 1808), (1810, 1839), (1869, 1957), (1969, 1969),
   (1984, 2026), (2036, 2037), (2042, 2042), (2048, 2069), (2074, 2074), (2084, 2084), (2088, 2088), (2112, 2136),
   (2144, 2154), (2160, 2183), (2185, 2190), (2208, 2249), (2308, 2361), (2365, 2365), (2384, 2384), (2392, 2401),
   (2406, 2415), (2417, 2432), (2437, 2444), (2447, 2448), (2451, 2472), (2474, 2480), (2482, 2482), (2486, 2489),
   (2493, 2493), (2510, 2510), (2524, 2525), (2527, 2529), (2534, 2545), (2548, 2553), (2556, 2556), (2565, 2570),
   (2575, 2576), (2579, 2600), (2602, 2608), (2610, 2611), (2613, 2614), (2616, 2617), (2649, 2652), (2654, 2654),
   (2662, 2671), (2674, 2676), (2693, 2701), (2703, 2705), (2707, 2728), (2730, 2736), (2738, 2739), (2741, 2745),
   (2749, 2749), (2768, 2768), (2784, 2785), (2790, 2799), (2809, 2809), (2821, 2828), (2831, 2832), (2835, 2856),
   (2858, 2864), (2866, 2867), (2869, 2873), (2877, 2877), (2908, 2909), (2911, 2913), (2918, 2927), (2929, 2935),
   (2947, 2947), (2949, 2954), (2958, 2960), (2962, 2965), (2969, 2970), (2972, 2972), (2974, 2975), (2979, 2980),
   (2984, 2986), (2990, 3001), (3024, 3024), (3046, 3058), (3077, 3084), (3086, 3088), (3090, 3112), (3114, 3129),
   (3133, 3133), (3160, 3162), (3165, 3165), (3168, 3169), (3174, 3183), (3192, 3198), (3200, 3200), (3205, 3212),
   (3214, 3216), (3218, 3240), (3242, 3251), (3253, 3257), (3261, 3261), (3293, 3294), (3296, 3297), (3302, 3311),
   (3313, 3314), (3332, 3340), (3342, 3344), (3346, 3386), (3389, 3389), (3406, 3406), (3412, 3414), (3416, 3425),
   (3430, 3448), (3450, 3455), (3461, 3478), (3482, 3505), (3507, 3515), (3517, 3517), (3520, 3526), (3558, 3567),
   (3585, 3632), (3634, 3635), (3648, 3654), (3664, 3673), (3713, 3714), (3716, 3716), (3718, 3722), (3724, 3747),
   (3749, 3749), (3751, 3760), (3762, 3763), (3773, 3773), (3776, 3780), (3782, 3782), (3792, 3801), (3804, 3807),
   (3840, 3840), (3872, 3891), (3904, 3911), (3913, 3948), (3976, 3980), (4096, 4138), (4159, 4169), (4176, 4181),
   (4186, 4189), (4193, 4193), (4197, 4198), (4206, 4208), (4213, 4225), (4238, 4238), (4240, 4249), (4256, 4293),
   (4295, 4295), (4301, 4301), (4304, 4346), (4348, 4680), (4682, 4685), (4688, 4694), (4696, 4696), (4698, 4701),
   (4704, 4744), (4746, 4749), (4752, 4784), (4786, 4789), (4792, 4798), (4800, 4800), (4802, 4805), (4808, 4822),
   (4824, 4880), (4882, 4885), (4888, 4954), (4969, 4988), (4992, 5007), (5024, 5109), (5112, 5117), (5121, 5740),
   (5743, 5759), (5761, 5786), (5792, 5866), (5870, 5880), (5888, 5905), (5919, 5937), (5952, 5969), (5984, 5996),
   (5998, 6000), (6016, 6067), (6103, 6103), (6108, 6108), (6112, 6121), (6128, 6137), (6160, 6169), (6176, 6264),
   (6272, 6276), (6279, 6312), (6314, 6314), (6320, 6389), (6400, 6430), (6470, 6509), (6512, 6516), (6528, 6571),
   (6576, 6601), (6608, 6618), (6656, 6678), (6688, 6740), (6784, 6793), (6800, 6809), (6823, 6823), (6917, 6963),
   (6981, 6988), (6992, 7001), (7043, 7072), (7086, 7141), (7168, 7203), (7232, 7241), (7245, 7293), (7296, 7304),
   (7312, 7354), (7357, 7359), (7401, 7404), (7406, 7411), (7413, 7414), (7418, 7418), (7424, 7615), (7680, 7957),
   (7960, 7965), (7968, 8005), (8008, 8013), (8016, 8023), (8025, 8025), (8027, 8027), (8029, 8029), (8031, 8061),
   (8064, 8116), (8118, 8124), (8126, 8126), (8130, 8132), (8134, 8140), (8144, 8147), (8150, 8155), (8160, 8172),
   (8178, 8180), (8182, 8188), (8304, 8305), (8308, 8313), (8319, 8329), (8336, 8348), (8450, 8450), (8455, 8455),
   (8458, 8467), (8469, 8469), (8473, 8477), (8484, 8484), (8486, 8486), (8488, 8488), (8490, 8493), (8495, 8505),
   (8508, 8511), (8517, 8521), (8526, 8526), (8528, 8585), (9312, 9371), (9450, 9471), (10102, 10131), (11264, 11492),
   (11499, 11502), (11506, 11507), (11517, 11517), (11520, 11557), (11559, 11559), (11565, 11565), (11568, 11623), (11631, 11631),
   (11648, 11670), (11680, 11686), (11688, 11694), (11696, 11702), (11704, 11710), (11712, 11718), (11720, 11726), (11728, 11734),
   (11736, 11742), (11823, 11823), (12293, 12295), (12321, 12329), (12337, 12341), (12344, 12348), (12353, 12438), (12445, 12447),
   (12449, 12538), (12540, 12543), (12549, 12591), (12593, 12686), (12690, 12693), (12704, 12735), (12784, 12799), (12832, 12841),
   (12872, 12879), (12881, 12895), (12928, 12937), (12977, 12991), (13312, 19903), (19968, 42124), (42192, 42237), (42240, 42508),
   (42512, 42539), (42560, 42606), (42623, 42653), (42656, 42735), (42775, 42783), (42786, 42888), (42891, 42954), (42960, 42961),
   (42963, 42963), (42965, 42969), (42994, 43009), (43011, 43013), (43015, 43018), (43020, 43042), (43056, 43061), (43072, 43123),
   (43138, 43187), (43216, 43225), (43250, 43255), (43259, 43259), (43261, 43262), (43264, 43301), (43312, 43334), (43360, 43388),
   (43396, 43442), (43471, 43481), (43488, 43492), (43494, 43518), (43520, 43560), (43584, 43586), (43588, 43595), (43600, 43609),
   (43616, 43638), (43642, 43642), (43646, 43695), (43697, 43697), (43701, 43702), (43705, 43709), (43712, 43712), (43714, 43714),
   (43739, 43741), (43744, 43754), (43762, 43764), (43777, 43782), (43785, 43790), (43793, 43798), (43808, 43814), (43816, 43822),
   (43824, 43866), (43868, 43881), (43888, 44002), (44016, 44025), (44032, 55203), (55216, 55238), (55243, 55291), (63744, 64109),
   (64112, 64217), (64256, 64262), (64275, 64279), (64285, 64285), (64287, 64296), (64298, 64310), (64312, 64316), (64318, 64318),
   (64320, 64321), (64323, 64324), (64326, 64433), (64467, 64829), (64848, 64911), (64914, 64967), (65008, 65019), (65136, 65140),
   (65142, 65276), (65296, 65305), (65313, 65338), (65345, 65370), (65382, 65470), (65474, 65479), (65482, 65487), (65490, 65495),
   (65498, 65500), (65536, 65547), (65549, 65574), (65576, 65594), (65596, 65597), (65599, 65613), (65616, 65629), (65664, 65786),
   (65799, 65843), (65856, 65912), (65930, 65931), (66176, 66204), (66208, 66256), (66273, 66299), (66304, 66339), (66349, 66378),
   (66384, 66421), (66432, 66461), (66464, 66499), (66504, 66511), (66513, 66517), (66560, 66717), (66720, 66729), (66736, 66771),
   (66776, 66811), (66816, 66855), (66864, 66915), (66928, 66938), (66940, 66954), (66956, 66962), (66964, 66965), (66967, 66977),
   (66979, 66993), (66995, 67001), (67003, 67004), (67072, 67382), (67392, 67413), (67424, 67431), (67456, 67461), (67463, 67504),
   (67506, 67514), (67584, 67589), (67592, 67592), (67594, 67637), (67639, 67640), (67644, 67644), (67647, 67669), (67672, 67702),
   (67705, 67742), (67751, 67759), (67808, 67826), (67828, 67829), (67835, 67867), (67872, 67897), (67968, 68023), (68028, 68047),
   (68050, 68096), (68112, 68115), (68117, 68119), (68121, 68149), (68160, 68168), (68192, 68222), (68224, 68255), (68288, 68295),
   (68297, 68324), (68331, 68335), (68352, 68405), (68416, 68437), (68440, 68466), (68472, 68497), (68521, 68527), (68608, 68680),
   (68736, 68786), (68800, 68850), (68858, 68899), (68912, 68921), (69216, 69246), (69248, 69289), (69296, 69297), (69376, 69415),
   (69424, 69445), (69457, 69460), (69488, 69505), (69552, 69579), (69600, 69622), (69635, 69687), (69714, 69743), (69745, 69746),
   (69749, 69749), (69763, 69807), (69840, 69864), (69872, 69881), (69891, 69926), (69942, 69951), (69956, 69956), (69959, 69959),
   (69968, 70002), (70006, 70006), (70019, 70066), (70081, 70084), (70096, 70106), (70108, 70108), (70113, 70132), (70144, 70161),
   (70163, 70187), (70272, 70278), (70280, 70280), (70282, 70285), (70287, 70301), (70303, 70312), (70320, 70366), (70384, 70393),
   (70405, 70412), (70415, 70416), (70419, 70440), (70442, 70448), (70450, 70451), (70453, 70457), (70461, 70461), (70480, 70480),
   (70493, 70497), (70656, 70708), (70727, 70730), (70736, 70745), (70751, 70753), (70784, 70831), (70852, 70853), (70855, 70855),
   (70864, 70873), (71040, 71086), (71128, 71131), (71168, 71215), (71236, 71236), (71248, 71257), (71296, 71338), (71352, 71352),
   (71360, 71369), (71424, 71450), (71472, 71483), (71488, 71494), (71680, 71723), (71840, 71922), (71935, 71942), (71945, 71945),
   (71948, 71955), (71957, 71958), (71960, 71983), (71999, 71999), (72001, 72001), (72016, 72025), (72096, 72103), (72106, 72144),
   (72161, 72161), (72163, 72163), (72192, 72192), (72203, 72242), (72250, 72250), (72272, 72272), (72284, 72329), (72349, 72349),
   (72368, 72440), (72704, 72712), (72714, 72750), (72768, 72768), (72784, 72812), (72818, 72847), (72960, 72966), (72968, 72969),
   (72971, 73008), (73030, 73030), (73040, 73049), (73056, 73061), (73063, 73064), (73066, 73097), (73112, 73112), (73120, 73129),
   (73440, 73458), (73648, 73648), (73664, 73684), (73728, 74649), (74752, 74862), (74880, 75075), (77712, 77808), (77824, 78894),
   (82944, 83526), (92160, 92728), (92736, 92766), (92768, 92777), (92784, 92862), (92864, 92873), (92880, 92909), (92928, 92975),
   (92992, 92995), (93008, 93017), (93019, 93025), (93027, 93047), (93053, 93071), (93760, 93846), (93952, 94026), (94032, 94032),
   (94099, 94111), (94176, 94177), (94179, 94179), (94208, 100343), (100352, 101589), (101632, 101640), (110576, 110579), (110581, 110587),
   (110589, 110590), (110592, 110882), (110928, 110930), (110948, 110951), (110960, 111355), (113664, 113770), (113776, 113788), (113792, 113800),
   (113808, 113817), (119520, 119539), (119648, 119672), (119808, 119892), (119894, 119964), (119966, 119967), (119970, 119970), (119973, 119974),
   (119977, 119980), (119982, 119993), (119995, 119995), (119997, 120003), (120005, 120069), (120071, 120074), (120077, 120084), (120086, 120092),
   (120094, 120121), (120123, 120126), (120128, 120132), (120134, 120134), (120138, 120144), (120146, 120485), (120488, 120512), (120514, 120538),
   (120540, 120570), (120572, 120596), (120598, 120628), (120630, 120654), (120656, 120686), (120688, 120712), (120714, 120744), (120746, 120770),
   (120772, 120779), (120782, 120831), (122624, 122654), (123136, 123180), (123191, 123197), (123200, 123209), (123214, 123214), (123536, 123565),
   (123584, 123627), (123632, 123641), (124896, 124902), (124904, 124907), (124909, 124910), (124912, 124926), (124928, 125124), (125127, 125135),
   (125184, 125251), (125259, 125259), (125264, 125273), (126065, 126123), (126125, 126127), (126129, 126132), (126209, 126253), (126255, 126269),
   (126464, 126467), (126469, 126495), (126497, 126498), (126500, 126500), (126503, 126503), (126505, 126514), (126516, 126519), (126521, 126521),
   (126523, 126523), (126530, 126530), (126535, 126535), (126537, 126537), (126539, 126539), (126541, 126543), (126545, 126546), (126548, 126548),
   (126551, 126551), (126553, 126553), (126555, 126555), (126557, 126557), (126559, 126559), (126561, 126562), (126564, 126564), (126567, 126570),
   (126572, 126578), (126580, 126583), (126585, 126588), (126590, 126590), (126592, 126601), (126603, 126619), (126625, 126627), (126629, 126633),
   (126635, 126651), (127232, 127244), (130032, 130041), (131072, 173791), (173824, 177976), (177984, 178205), (178208, 183969), (183984, 191456),
   (194560, 195101), (196608, 201546)]"

definition ascii_letter :: "nat \<Rightarrow> bool" where
  "ascii_letter c = ((65 \<le> c \<and> c \<le> 90) \<or> (97 \<le> c \<and> c \<le> 122))"

definition ascii_digit :: "nat \<Rightarrow> bool" where
  "ascii_digit c = (48 \<le> c \<and> c \<le> 57)"

definition is_digit :: "nat \<Rightarrow> bool" where
  "is_digit c = (if c < 128 then ascii_digit c else in_ranges c uni_decimal_ranges)"

definition is_space :: "nat \<Rightarrow> bool" where
  "is_space c =
     (if c < 128 then (9 \<le> c \<and> c \<le> 13) \<or> (28 \<le> c \<and> c \<le> 32)
      else in_ranges c uni_space_ranges)"

definition is_word :: "nat \<Rightarrow> bool" where
  "is_word c =
     (if c < 128 then ascii_letter c \<or> ascii_digit c \<or> c = 95
      else in_ranges c uni_alnum_ranges)"

text \<open>The value of a decimal digit (\<^verbatim>\<open>Py_UNICODE_TODECIMAL\<close>).\<close>

definition decimal_value :: "nat \<Rightarrow> nat option" where
  "decimal_value c =
     (if c < 128 then (if ascii_digit c then Some (c - 48) else None)
      else (case List.find (\<lambda>(lo, hi). lo \<le> c \<and> c \<le> hi) uni_decimal_ranges of
              None \<Rightarrow> None
            | Some (lo, hi) \<Rightarrow> Some ((c - lo) mod 10)))"

section \<open>Regular expressions with backtracking\<close>

text \<open>
  The two patterns are matched by Python's \<^verbatim>\<open>re\<close>, a backtracking matcher: every
  quantifier is greedy and gives back what it took when the rest of the pattern fails.
  \<open>run r st\<close> lists the ways \<open>r\<close> matches at the state \<open>st\<close> in the order the
  matcher tries them; the first one is the match. A state is the character before the
  position (for look-behind and \<^verbatim>\<open>\b\<close>), the text from the position on, and the
  groups captured so far.

  \<open>Rep m n r\<close> is \<^verbatim>\<open>r{m,n}\<close> (\<open>n = None\<close> for no upper bound): one more iteration
  is tried before stopping, and an iteration that takes no character is not repeated (in
  both patterns every repeated part takes a character). \<open>Cls f\<close> is a character class
  given by its predicate, \<open>NotBehind f\<close> and \<open>NotAhead f\<close> are the negative
  look-arounds for one character of a class, and \<open>WordB\<close> is \<^verbatim>\<open>\b\<close>: exactly one of
  the characters before and after the position is a word character.
\<close>

datatype regex =
    Chr nat
  | Cls "nat \<Rightarrow> bool"
  | Cat regex regex
  | Rep nat "nat option" regex
  | Grp regex
  | NotBehind "nat \<Rightarrow> bool"
  | NotAhead "nat \<Rightarrow> bool"
  | WordB

abbreviation Opt :: "regex \<Rightarrow> regex" where
  "Opt r \<equiv> Rep 0 (Some 1) r"

abbreviation Star :: "regex \<Rightarrow> regex" where
  "Star r \<equiv> Rep 0 None r"

abbreviation Plus :: "regex \<Rightarrow> regex" where
  "Plus r \<equiv> Rep 1 None r"

type_synonym mstate = "nat option \<times> pystr \<times> pystr list"

definition rest :: "mstate \<Rightarrow> pystr" where
  "rest st = fst (snd st)"

definition word_before :: "nat option \<Rightarrow> bool" where
  "word_before p = (case p of None \<Rightarrow> False | Some c \<Rightarrow> is_word c)"

definition word_after :: "pystr \<Rightarrow> bool" where
  "word_after s = (case s of [] \<Rightarrow> False | c # _ \<Rightarrow> is_word c)"

definition dec_max :: "nat option \<Rightarrow> nat option" where
  "dec_max n = (case n of None \<Rightarrow> None | Some k \<Rightarrow> Some (k - 1))"

function run :: "regex \<Rightarrow> mstate \<Rightarrow> mstate list" where
  "run (Chr c) (p, s, g) =
     (case s of [] \<Rightarrow> [] | x # xs \<Rightarrow> if x = c then [(Some x, xs, g)] else [])"
| "run (Cls f) (p, s, g) =
     (case s of [] \<Rightarrow> [] | x # xs \<Rightarrow> if f x then [(Some x, xs, g)] else [])"
| "run (Cat r1 r2) (p, s, g) = concat (map (run r2) (run r1 (p, s, g)))"
| "run (Rep m n r) (p, s, g) =
     (if n = Some 0 then []
      else concat (map (\<lambda>st'. if length (rest st') < length s
                                then run (Rep (m - 1) (dec_max n) r) st' else [])
                       (run r (p, s, g))))
     @ (if m = 0 then [(p, s, g)] else [])"
| "run (Grp r) (p, s, g) =
     map (\<lambda>st'. (fst st', rest st', snd (snd st') @ [take (length s - length (rest st')) s]))
         (run r (p, s, g))"
| "run (NotBehind f) (p, s, g) =
     (case p of None \<Rightarrow> [(p, s, g)] | Some c \<Rightarrow> if f c then [] else [(p, s, g)])"
| "run (NotAhead f) (p, s, g) =
     (case s of [] \<Rightarrow> [(p, s, g)] | c # _ \<Rightarrow> if f c then [] else [(p, s, g)])"
| "run WordB (p, s, g) = (if word_before p \<noteq> word_after s then [(p, s, g)] else [])"
  by pat_completeness auto
termination
  by (relation "inv_image (less_than <*lex*> less_than) (\<lambda>(r, st). (size r, length (rest st)))")
     (auto simp: rest_def)

text \<open>
  \<^verbatim>\<open>findall\<close> scans from the left: where the pattern matches, the match is kept and
  the scan goes on at its end; elsewhere the scan moves one character on. (Neither
  pattern matches the empty string; an empty match is kept and the scan moves on.)
\<close>

definition match_at :: "regex \<Rightarrow> nat option \<Rightarrow> pystr \<Rightarrow> mstate option" where
  "match_at r p s = (case run r (p, s, []) of [] \<Rightarrow> None | st # _ \<Rightarrow> Some st)"

function scan :: "regex \<Rightarrow> nat option \<Rightarrow> pystr \<Rightarrow> (pystr \<times> pystr list) list" where
  "scan r p s =
     (case match_at r p s of
        Some st \<Rightarrow>
          if length (rest st) < length s
          then (take (length s - length (rest st)) s, snd (snd st)) # scan r (fst st) (rest st)
          else ([], snd (snd st)) # (case s of [] \<Rightarrow> [] | c # cs \<Rightarrow> scan r (Some c) cs)
      | None \<Rightarrow> (case s of [] \<Rightarrow> [] | c # cs \<Rightarrow> scan r (Some c) cs))"
  by pat_completeness auto
termination
  by (relation "measure (\<lambda>(r, p, s). length s)") auto

declare scan.simps [simp del]

section \<open>Tokenizer\<close>

text \<open>
  \<^verbatim>\<open>_NUM_RE\<close> (compiled with \<^verbatim>\<open>re.VERBOSE\<close>):
  \<^verbatim>\<open>(?<![A-Za-z]) -? \d{1,3} (?:,\d{3})* (?:\.\d+)? %? (?![A-Za-z])\<close>
\<close>

definition NUM_RE :: regex where
  "NUM_RE =
     Cat (NotBehind ascii_letter)
    (Cat (Opt (Chr 45))
    (Cat (Rep 1 (Some 3) (Cls is_digit))
    (Cat (Star (Cat (Chr 44) (Rep 3 (Some 3) (Cls is_digit))))
    (Cat (Opt (Cat (Chr 46) (Plus (Cls is_digit))))
    (Cat (Opt (Chr 37))
         (NotAhead ascii_letter))))))"

text \<open>
  \<^verbatim>\<open>_SCORE_RE\<close>: \<^verbatim>\<open>\b(\d+)\s*[-\<close>U+2013\<^verbatim>\<open>]\s*(\d+)\b\<close>
\<close>

definition hyphen_or_dash :: "nat \<Rightarrow> bool" where
  "hyphen_or_dash c = (c = 45 \<or> c = 8211)"

definition SCORE_RE :: regex where
  "SCORE_RE =
     Cat WordB
    (Cat (Grp (Plus (Cls is_digit)))
    (Cat (Star (Cls is_space))
    (Cat (Cls hyphen_or_dash)
    (Cat (Star (Cls is_space))
    (Cat (Grp (Plus (Cls is_digit)))
         WordB)))))"

text \<open>\<^verbatim>\<open>text or ""\<close>: \<^verbatim>\<open>None\<close> and the empty string both give the empty string.\<close>

definition or_empty :: "pystr option \<Rightarrow> pystr" where
  "or_empty t = (case t of None \<Rightarrow> [] | Some s \<Rightarrow> s)"

definition numbers_from_text :: "pystr option \<Rightarrow> pystr list" where
  "numbers_from_text text = map fst (scan NUM_RE None (or_empty text))"

definition pair_of_groups :: "pystr list \<Rightarrow> pystr \<times> pystr" where
  "pair_of_groups g = (case g of [a, b] \<Rightarrow> (a, b) | _ \<Rightarrow> ([], []))"

definition scorelines_from_text :: "pystr option \<Rightarrow> (pystr \<times> pystr) list" where
  "scorelines_from_text text = map (\<lambda>m. pair_of_groups (snd m)) (scan SCORE_RE None (or_empty text))"

section \<open>Normalizer\<close>

text \<open>
  \<^verbatim>\<open>s.replace(",", "")\<close> removes every comma; \<^verbatim>\<open>s.rstrip("%")\<close> removes the
  whole run of percent signs at the end of the string.
\<close>

definition remove_chr :: "nat \<Rightarrow> pystr \<Rightarrow> pystr" where
  "remove_chr c s = filter (\<lambda>x. x \<noteq> c) s"

definition rstrip_chr :: "nat \<Rightarrow> pystr \<Rightarrow> pystr" where
  "rstrip_chr c s = rev (dropWhile (\<lambda>x. x = c) (rev s))"

definition normalize_number_token :: "pystr \<Rightarrow> pystr" where
  "normalize_number_token tok = rstrip_chr 37 (remove_chr 44 tok)"

section \<open>Floating-point numbers\<close>

text \<open>
  A Python \<^verbatim>\<open>float\<close> is an IEEE 754 binary64 number. A finite one is kept exactly, as
  its sign, an integer \<open>m\<close> and an exponent \<open>e\<close> with value \<open>m * 2 ^ e\<close>; every
  operation below is computed on the exact value and rounded to nearest, ties to even,
  as the correctly rounded conversions of CPython are.
\<close>

datatype py_float = Finite bool nat int | Infinity bool | NaN

datatype py_error = OverflowError | ValueError

definition rhe_div :: "nat \<Rightarrow> nat \<Rightarrow> nat" where
  "rhe_div a b =
     (let q = a div b; r = a mod b
      in if 2 * r < b then q
         else if b < 2 * r then q + 1
         else if even q then q else q + 1)"

text \<open>\<open>rhe_scaled a b e\<close> is the integer nearest to \<open>a / (b * 2 ^ e)\<close>.\<close>

definition rhe_scaled :: "nat \<Rightarrow> nat \<Rightarrow> int \<Rightarrow> nat" where
  "rhe_scaled a b e =
     (if 0 \<le> e then rhe_div a (b * 2 ^ nat e) else rhe_div (a * 2 ^ nat (- e)) b)"

fun bit_length :: "nat \<Rightarrow> nat" where
  "bit_length n = (if n = 0 then 0 else Suc (bit_length (n div 2)))"

declare bit_length.simps [simp del]

text \<open>\<open>floor_log2 a b\<close> is the integer part of the binary logarithm of \<open>a / b\<close>.\<close>

definition floor_log2 :: "nat \<Rightarrow> nat \<Rightarrow> int" where
  "floor_log2 a b =
     (let d = int (bit_length a) - int (bit_length b)
      in if (if 0 \<le> d then b * 2 ^ nat d \<le> a else b \<le> a * 2 ^ nat (- d)) then d else d - 1)"

text \<open>
  The double nearest to \<open>a / b\<close> (for positive \<open>a\<close> and \<open>b\<close>): 53 significant bits,
  exponent at least \<open>-1074\<close> (subnormal numbers), infinity from \<open>2 ^ 1024\<close> on.
\<close>

definition nearest_double :: "bool \<Rightarrow> nat \<Rightarrow> nat \<Rightarrow> py_float" where
  "nearest_double sign a b =
     (if a = 0 then Finite sign 0 0
      else let e = max (floor_log2 a b - 52) (- 1074);
               m = rhe_scaled a b e
           in if 0 \<le> e \<and> 2 ^ 1024 \<le> m * 2 ^ nat e then Infinity sign else Finite sign m e)"

text \<open>The double nearest to \<open>n * 10 ^ k\<close>.\<close>

definition decimal_to_double :: "bool \<Rightarrow> nat \<Rightarrow> int \<Rightarrow> py_float" where
  "decimal_to_double sign n k =
     (if 0 \<le> k then nearest_double sign (n * 10 ^ nat k) 1
      else nearest_double sign n (10 ^ nat (- k)))"

subsection \<open>\<^verbatim>\<open>float(s)\<close>\<close>

text \<open>
  \<^verbatim>\<open>float\<close> of a string: decimal digits and white space beyond ASCII are turned into
  their ASCII counterparts (any other character beyond ASCII ends the string with a
  question mark, so that the parse fails); single underscores between digits are
  dropped; ASCII white space at both ends is stripped; what remains must be a decimal
  literal with an optional exponent, or \<^verbatim>\<open>inf\<close>, \<^verbatim>\<open>infinity\<close> or \<^verbatim>\<open>nan\<close> in any
  case, with an optional sign. \<open>None\<close> is the \<^verbatim>\<open>ValueError\<close> of a failed parse.
\<close>

fun transform_decimal_and_space :: "pystr \<Rightarrow> pystr" where
  "transform_decimal_and_space [] = []"
| "transform_decimal_and_space (c # cs) =
     (if c < 127 then c # transform_decimal_and_space cs
      else if is_space c then 32 # transform_decimal_and_space cs
      else (case decimal_value c of
              None \<Rightarrow> [63]
            | Some d \<Rightarrow> (48 + d) # transform_decimal_and_space cs))"

definition to_ascii :: "pystr \<Rightarrow> pystr" where
  "to_ascii s = (if list_all (\<lambda>c. c < 128) s then s else transform_decimal_and_space s)"

fun drop_underscores :: "nat \<Rightarrow> pystr \<Rightarrow> pystr option" where
  "drop_underscores prev [] = (if prev = 95 then None else Some [])"
| "drop_underscores prev (c # cs) =
     (if c = 95 then (if ascii_digit prev then drop_underscores c cs else None)
      else if prev = 95 \<and> \<not> ascii_digit c then None
      else map_option ((#) c) (drop_underscores c cs))"

definition without_underscores :: "pystr \<Rightarrow> pystr option" where
  "without_underscores s = (if 95 \<in> set s then drop_underscores 0 s else Some s)"

definition c_space :: "nat \<Rightarrow> bool" where
  "c_space c = (c = 32 \<or> (9 \<le> c \<and> c \<le> 13))"

definition strip_space :: "pystr \<Rightarrow> pystr" where
  "strip_space s = rev (dropWhile c_space (rev (dropWhile c_space s)))"

definition split_sign :: "pystr \<Rightarrow> bool \<times> pystr" where
  "split_sign s =
     (case s of
        [] \<Rightarrow> (False, [])
      | c # cs \<Rightarrow> if c = 45 then (True, cs) else if c = 43 then (False, cs) else (False, s))"

definition digits_value :: "pystr \<Rightarrow> nat" where
  "digits_value ds = foldl (\<lambda>acc c. 10 * acc + (c - 48)) 0 ds"

definition parse_exponent :: "pystr \<Rightarrow> int option" where
  "parse_exponent s =
     (case s of
        [] \<Rightarrow> Some 0
      | c # t \<Rightarrow>
          if c = 101 \<or> c = 69
          then (let (neg, ds) = split_sign t
                in if ds \<noteq> [] \<and> list_all ascii_digit ds
                   then Some (if neg then - int (digits_value ds) else int (digits_value ds))
                   else None)
          else None)"

definition parse_decimal :: "bool \<Rightarrow> pystr \<Rightarrow> py_float option" where
  "parse_decimal sign s =
     (let ip = takeWhile ascii_digit s;
          r1 = dropWhile ascii_digit s;
          fp = (case r1 of [] \<Rightarrow> [] | c # t \<Rightarrow> if c = 46 then takeWhile ascii_digit t else []);
          r2 = (case r1 of [] \<Rightarrow> [] | c # t \<Rightarrow> if c = 46 then dropWhile ascii_digit t else r1)
      in if ip = [] \<and> fp = [] then None
         else (case parse_exponent r2 of
                 None \<Rightarrow> None
               | Some ex \<Rightarrow>
                   Some (decimal_to_double sign (digits_value (ip @ fp)) (ex - int (length fp)))))"

definition to_lower :: "nat \<Rightarrow> nat" where
  "to_lower c = (if 65 \<le> c \<and> c \<le> 90 then c + 32 else c)"

definition parse_inf_or_nan :: "bool \<Rightarrow> pystr \<Rightarrow> py_float option" where
  "parse_inf_or_nan sign s =
     (let l = map to_lower s
      in if l = ustr ''inf'' \<or> l = ustr ''infinity'' then Some (Infinity sign)
         else if l = ustr ''nan'' then Some NaN
         else None)"

definition py_float :: "pystr \<Rightarrow> py_float option" where
  "py_float s =
     (case without_underscores (to_ascii s) of
        None \<Rightarrow> None
      | Some u \<Rightarrow>
          (let (sign, body) = split_sign (strip_space u)
           in case parse_decimal sign body of
                Some f \<Rightarrow> Some f
              | None \<Rightarrow> parse_inf_or_nan sign body))"

subsection \<open>\<^verbatim>\<open>round\<close>, \<^verbatim>\<open>int\<close>, \<^verbatim>\<open>str\<close> and the \<^verbatim>\<open>.1f\<close> and \<^verbatim>\<open>.2f\<close> formats\<close>

text \<open>
  \<^verbatim>\<open>round(f)\<close> gives the nearest integer (ties to even) and raises on an infinity or a
  NaN: the exceptions are those of converting the float to an integer.
\<close>

definition round_to_int :: "py_float \<Rightarrow> py_error + int" where
  "round_to_int f =
     (case f of
        Finite sign m e \<Rightarrow>
          (let k = rhe_scaled m 1 (- e) in Inr (if sign then - int k else int k))
      | Infinity sign \<Rightarrow> Inl OverflowError
      | NaN \<Rightarrow> Inl ValueError)"

text \<open>
  \<^verbatim>\<open>round(f, nd)\<close> writes \<open>f\<close> with \<open>nd\<close> correctly rounded decimals and reads
  that decimal back as a double; a result out of range is an \<^verbatim>\<open>OverflowError\<close>.
\<close>

definition round_digits :: "py_float \<Rightarrow> nat \<Rightarrow> py_error + py_float" where
  "round_digits f nd =
     (case f of
        Finite sign m e \<Rightarrow>
          (case decimal_to_double sign (rhe_scaled (m * 10 ^ nd) 1 (- e)) (- int nd) of
             Infinity s \<Rightarrow> Inl OverflowError
           | g \<Rightarrow> Inr g)
      | g \<Rightarrow> Inr g)"

fun dec_str :: "nat \<Rightarrow> pystr" where
  "dec_str n = (if n < 10 then [48 + n] else dec_str (n div 10) @ [48 + n mod 10])"

declare dec_str.simps [simp del]

definition str_int :: "int \<Rightarrow> pystr" where
  "str_int i = (if i < 0 then 45 # dec_str (nat (- i)) else dec_str (nat i))"

definition zero_pad :: "nat \<Rightarrow> pystr \<Rightarrow> pystr" where
  "zero_pad w s = replicate (w - length s) 48 @ s"

text \<open>\<^verbatim>\<open>f"{g:.1f}"\<close> and \<^verbatim>\<open>f"{g:.2f}"\<close> are \<open>format_f g 1\<close> and \<open>format_f g 2\<close>.\<close>

definition format_f :: "py_float \<Rightarrow> nat \<Rightarrow> pystr" where
  "format_f g nd =
     (case g of
        Finite sign m e \<Rightarrow>
          (let k = rhe_scaled (m * 10 ^ nd) 1 (- e)
           in (if sign then [45] else []) @ dec_str (k div 10 ^ nd) @ [46]
              @ zero_pad nd (dec_str (k mod 10 ^ nd)))
      | Infinity sign \<Rightarrow> (if sign then [45] else []) @ ustr ''inf''
      | NaN \<Rightarrow> ustr ''nan'')"

section \<open>Variant generator\<close>

text \<open>
  \<^verbatim>\<open>_variants\<close>: only the parse is inside the \<^verbatim>\<open>try\<close>; the roundings that follow
  are not, so what they raise leaves the function.
\<close>

definition variants :: "pystr \<Rightarrow> py_error + pystr set" where
  "variants n =
     (case py_float n of
        None \<Rightarrow> Inr {n}
      | Some f \<Rightarrow>
          (case round_to_int f of
             Inl err \<Rightarrow> Inl err
           | Inr i \<Rightarrow>
               (case round_digits f 1 of
                  Inl err \<Rightarrow> Inl err
                | Inr r1 \<Rightarrow>
                    (case round_digits f 2 of
                       Inl err \<Rightarrow> Inl err
                     | Inr r2 \<Rightarrow>
                         Inr ({n} \<union> {str_int i} \<union> {format_f r1 1} \<union> {format_f r2 2}
                              \<union> (if 46 \<in> set n \<and> rstrip_chr 46 (rstrip_chr 48 n) \<noteq> []
                                  then {rstrip_chr 46 (rstrip_chr 48 n)} else {}))))))"

section \<open>Fact indexer\<close>

text \<open>
  A fact is a dictionary with the keys \<^verbatim>\<open>label\<close>, \<^verbatim>\<open>value\<close> and \<^verbatim>\<open>source\<close>; only
  \<^verbatim>\<open>value\<close> is read, through \<^verbatim>\<open>str(f.get("value", "") or "")\<close>, so that a missing
  key and the value \<^verbatim>\<open>None\<close> (here both \<open>None\<close>) read as the empty string.
\<close>

record fact =
  fact_label :: pystr
  fact_value :: "pystr option"
  fact_source :: pystr

definition value_text :: "fact \<Rightarrow> pystr" where
  "value_text f = or_empty (fact_value f)"

text \<open>The halves of the scorelines, in the order of the loops over them.\<close>

definition score_parts :: "(pystr \<times> pystr) list \<Rightarrow> pystr list" where
  "score_parts ps = concat (map (\<lambda>(a, b). [a, b]) ps)"

text \<open>
  \<^verbatim>\<open>bag.update(_variants(norm))\<close> for each token in turn; the first exception ends the
  loop.
\<close>

fun update_variants :: "pystr set \<Rightarrow> pystr list \<Rightarrow> py_error + pystr set" where
  "update_variants bag [] = Inr bag"
| "update_variants bag (t # ts) =
     (case variants (normalize_number_token t) of
        Inl err \<Rightarrow> Inl err
      | Inr vs \<Rightarrow> update_variants (bag \<union> vs) ts)"

fun index_loop :: "pystr set \<Rightarrow> fact list \<Rightarrow> py_error + pystr set" where
  "index_loop bag [] = Inr bag"
| "index_loop bag (f # fs) =
     (case update_variants bag (score_parts (scorelines_from_text (Some (value_text f)))) of
        Inl err \<Rightarrow> Inl err
      | Inr bag1 \<Rightarrow>
          (case update_variants bag1 (numbers_from_text (Some (value_text f))) of
             Inl err \<Rightarrow> Inl err
           | Inr bag2 \<Rightarrow> index_loop bag2 fs))"

definition index_fact_numbers :: "fact list option \<Rightarrow> py_error + pystr set" where
  "index_fact_numbers facts = index_loop {} (case facts of None \<Rightarrow> [] | Some fs \<Rightarrow> fs)"

section \<open>Comparator\<close>

definition ALLOW :: "pystr set" where
  "ALLOW = set (map ustr
     [''120'', ''90'', ''75'', ''60'', ''45'', ''30'', ''25'', ''20'', ''15'', ''10'', ''5'',
      ''3'', ''2'', ''1'',
      ''2019'', ''2020'', ''2021'', ''2022'', ''2023'', ''2024'', ''2025'', ''2026''])"

fun unique_loop :: "'a set \<Rightarrow> 'a list \<Rightarrow> 'a list \<Rightarrow> 'a list" where
  "unique_loop seen out [] = out"
| "unique_loop seen out (x # xs) =
     (if x \<notin> seen then unique_loop (insert x seen) (out @ [x]) xs
      else unique_loop seen out xs)"

definition unique_preserve_order :: "'a list \<Rightarrow> 'a list" where
  "unique_preserve_order items = unique_loop {} [] items"

text \<open>The first loop of \<^verbatim>\<open>assert_numbers_in_facts\<close>, over the scoreline halves.\<close>

fun score_loop :: "pystr set \<Rightarrow> pystr list \<Rightarrow> pystr list \<Rightarrow> py_error + pystr list" where
  "score_loop fact_index missing [] = Inr missing"
| "score_loop fact_index missing (part # ps) =
     (let norm = normalize_number_token part
      in if norm \<notin> ALLOW
         then (case variants norm of
                 Inl err \<Rightarrow> Inl err
               | Inr vs \<Rightarrow>
                   if vs \<inter> fact_index = {} then score_loop fact_index (missing @ [part]) ps
                   else score_loop fact_index missing ps)
         else score_loop fact_index missing ps)"

text \<open>The second loop, over the standalone tokens.\<close>

fun token_loop :: "pystr set \<Rightarrow> pystr list \<Rightarrow> pystr list \<Rightarrow> py_error + pystr list" where
  "token_loop fact_index missing [] = Inr missing"
| "token_loop fact_index missing (tok # ts) =
     (let raw = tok; norm = normalize_number_token tok
      in if norm \<in> ALLOW \<or> rstrip_chr 37 raw \<in> ALLOW then token_loop fact_index missing ts
         else (case variants norm of
                 Inl err \<Rightarrow> Inl err
               | Inr vs \<Rightarrow>
                   if vs \<inter> fact_index = {} then token_loop fact_index (missing @ [raw]) ts
                   else token_loop fact_index missing ts))"

definition assert_numbers_in_facts :: "pystr option \<Rightarrow> fact list option \<Rightarrow> py_error + pystr list" where
  "assert_numbers_in_facts body facts =
     (case index_fact_numbers facts of
        Inl err \<Rightarrow> Inl err
      | Inr fact_index \<Rightarrow>
          (case score_loop fact_index []
                  (score_parts (scorelines_from_text (Some (or_empty body)))) of
             Inl err \<Rightarrow> Inl err
           | Inr missing1 \<Rightarrow>
               (case token_loop fact_index missing1 (numbers_from_text (Some (or_empty body))) of
                  Inl err \<Rightarrow> Inl err
                | Inr missing \<Rightarrow> Inr (unique_preserve_order missing))))"

section \<open>The specification's wording of the normalizer\<close>

text \<open>
  The specification describes the normalizer as removing every comma and stripping one
  trailing percent sign if present. \<open>normalize_spec\<close> follows these words, to be
  compared with \<open>normalize_number_token\<close>, which follows the code.
\<close>

definition normalize_spec :: "pystr \<Rightarrow> pystr" where
  "normalize_spec token =
     (let s = filter (\<lambda>x. x \<noteq> 44) token
      in if s \<noteq> [] \<and> last s = 37 then butlast s else s)"

section \<open>Auxiliary notions for the proofs\<close>

text \<open>The match the backtracking matcher reports: the first way a pattern matches.\<close>

definition first_result :: "regex \<Rightarrow> mstate \<Rightarrow> mstate option" where
  "first_result r st = (case run r st of [] \<Rightarrow> None | x # _ \<Rightarrow> Some x)"

text \<open>What may follow a number for \<^verbatim>\<open>_NUM_RE\<close> to match exactly that number.\<close>

definition num_end :: "pystr \<Rightarrow> bool" where
  "num_end r =
     (case r of
        [] \<Rightarrow> True
      | c # _ \<Rightarrow> \<not> is_digit c \<and> c \<noteq> 44 \<and> c \<noteq> 46 \<and> c \<noteq> 37 \<and> \<not> ascii_letter c)"

definition letter_before :: "nat option \<Rightarrow> bool" where
  "letter_before p = (case p of None \<Rightarrow> False | Some c \<Rightarrow> ascii_letter c)"

text \<open>
  The number \<open>10 ^ 309\<close>, written as a one and 309 zeros: the least power of ten that is
  too large for a double.
\<close>

definition big_number :: pystr where
  "big_number = 49 # replicate 309 48"


text \<open>
  The tokens of a text in the order in which the loops of the indexer and of the
  comparator visit them: the halves of the scorelines, then the standalone numbers.
\<close>

definition tokens_of :: "pystr \<Rightarrow> pystr list" where
  "tokens_of v = score_parts (scorelines_from_text (Some v)) @ numbers_from_text (Some v)"

text \<open>
  A token is flagged against a fact index when its normal form is not allow-listed and
  none of its variants is in the index.
\<close>

definition flagged :: "pystr set \<Rightarrow> pystr \<Rightarrow> bool" where
  "flagged fact_index t =
     (normalize_number_token t \<notin> ALLOW
      \<and> (case variants (normalize_number_token t) of
           Inl err \<Rightarrow> False
         | Inr vs \<Rightarrow> vs \<inter> fact_index = {}))"

text \<open>The exception that ends a loop of the comparator: that of the first token that raises.\<close>

fun first_error :: "pystr list \<Rightarrow> py_error option" where
  "first_error [] = None"
| "first_error (t # ts) =
     (if normalize_number_token t \<in> ALLOW then first_error ts
      else (case variants (normalize_number_token t) of
              Inl err \<Rightarrow> Some err
            | Inr vs \<Rightarrow> first_error ts))"

text \<open>The same for the loops of the indexer, which have no allow-list.\<close>

fun first_raise :: "pystr list \<Rightarrow> py_error option" where
  "first_raise [] = None"
| "first_raise (t # ts) =
     (case variants (normalize_number_token t) of
        Inl err \<Rightarrow> Some err
      | Inr vs \<Rightarrow> first_raise ts)"

definition variant_set :: "pystr \<Rightarrow> pystr set" where
  "variant_set t = (case variants (normalize_number_token t) of Inl err \<Rightarrow> {} | Inr vs \<Rightarrow> vs)"

text \<open>A fact of the panel with the given value, for the examples.\<close>

definition mk_fact :: "pystr \<Rightarrow> fact" where
  "mk_fact v =
     \<lparr>fact_label = ustr ''stat'', fact_value = Some v, fact_source = ustr ''vw_round_facts''\<rparr>"

text \<open>
  A sufficient condition, read off the pattern, for every match of it to take at least
  one decimal digit; and for every captured group to hold one.
\<close>

fun has_digit :: "regex \<Rightarrow> bool" where
  "has_digit (Chr c) = is_digit c"
| "has_digit (Cls f) = (\<forall>c. f c \<longrightarrow> is_digit c)"
| "has_digit (Cat r1 r2) = (has_digit r1 \<or> has_digit r2)"
| "has_digit (Rep m n r) = (0 < m \<and> has_digit r)"
| "has_digit (Grp r) = has_digit r"
| "has_digit (NotBehind f) = False"
| "has_digit (NotAhead f) = False"
| "has_digit WordB = False"

fun digit_groups :: "regex \<Rightarrow> bool" where
  "digit_groups (Cat r1 r2) = (digit_groups r1 \<and> digit_groups r2)"
| "digit_groups (Rep m n r) = digit_groups r"
| "digit_groups (Grp r) = (has_digit r \<and> digit_groups r)"
| "digit_groups r = True"

definition with_digit :: "pystr \<Rightarrow> bool" where
  "with_digit t = list_ex is_digit t"

text \<open>
  Two characters before a position agree for a pattern when each look-behind and each
  \<^verbatim>\<open>\b\<close> of the pattern decides the same on both. \<open>same_but p p' s\<close> relates the
  states reached from the position of \<open>s\<close> after \<open>p\<close> and after \<open>p'\<close>: they are equal,
  unless no character has been taken yet.
\<close>

fun behind_agree :: "regex \<Rightarrow> nat option \<Rightarrow> nat option \<Rightarrow> bool" where
  "behind_agree (NotBehind f) p p' =
     ((case p of None \<Rightarrow> False | Some c \<Rightarrow> f c) = (case p' of None \<Rightarrow> False | Some c \<Rightarrow> f c))"
| "behind_agree WordB p p' = (word_before p = word_before p')"
| "behind_agree (Cat r1 r2) p p' = (behind_agree r1 p p' \<and> behind_agree r2 p p')"
| "behind_agree (Rep m n r) p p' = behind_agree r p p'"
| "behind_agree (Grp r) p p' = behind_agree r p p'"
| "behind_agree r p p' = True"

definition same_but :: "nat option \<Rightarrow> nat option \<Rightarrow> pystr \<Rightarrow> mstate \<Rightarrow> mstate \<Rightarrow> bool" where
  "same_but p p' s st st' = (st = st' \<or> (\<exists>g. st = (p, s, g) \<and> st' = (p', s, g)))"

section \<open>Auxiliary notions for the proof that short texts never raise\<close>

text \<open>\<open>ge2 a b j\<close> says that \<open>a / b\<close> is at least \<open>2 ^ j\<close>, for an integer \<open>j\<close> of either sign.\<close>

definition ge2 :: "nat \<Rightarrow> nat \<Rightarrow> int \<Rightarrow> bool" where
  "ge2 a b j = (if 0 \<le> j then b * 2 ^ nat j \<le> a else b \<le> a * 2 ^ nat (- j))"

text \<open>
  A finite double as \<open>nearest_double\<close> produces it: at most 53 bits of significand (a
  significand of exactly \<open>2 ^ 53\<close> is a rounding carry), and a value below \<open>2 ^ 1024\<close>.
\<close>

definition valid_double :: "py_float \<Rightarrow> bool" where
  "valid_double f =
     (case f of
        Finite s m e \<Rightarrow> m \<le> 2 ^ 53 \<and> (e < 0 \<or> m * 2 ^ nat e < 2 ^ 1024)
      | Infinity s \<Rightarrow> False
      | NaN \<Rightarrow> False)"

text \<open>
  The characters of a normalized token (a digit of any script, a hyphen, a point, a
  percent sign), the same after the conversion of the digits to ASCII, and the characters
  of a token before normalization, which may hold commas too.
\<close>

definition num_char :: "nat \<Rightarrow> bool" where
  "num_char c = (is_digit c \<or> c = 45 \<or> c = 46 \<or> c = 37)"

definition plain_char :: "nat \<Rightarrow> bool" where
  "plain_char c = (ascii_digit c \<or> c = 45 \<or> c = 46 \<or> c = 37)"

definition tok_char :: "nat \<Rightarrow> bool" where
  "tok_char c = (num_char c \<or> c = 44)"

text \<open>
  A sufficient condition, read off the pattern, for every character a match takes to
  satisfy \<open>A\<close>; and the same for the characters of every captured group.
\<close>

fun takes_only :: "(nat \<Rightarrow> bool) \<Rightarrow> regex \<Rightarrow> bool" where
  "takes_only A (Chr c) = A c"
| "takes_only A (Cls f) = (\<forall>c. f c \<longrightarrow> A c)"
| "takes_only A (Cat r1 r2) = (takes_only A r1 \<and> takes_only A r2)"
| "takes_only A (Rep m n r) = takes_only A r"
| "takes_only A (Grp r) = takes_only A r"
| "takes_only A (NotBehind f) = True"
| "takes_only A (NotAhead f) = True"
| "takes_only A WordB = True"

fun groups_only :: "(nat \<Rightarrow> bool) \<Rightarrow> regex \<Rightarrow> bool" where
  "groups_only A (Cat r1 r2) = (groups_only A r1 \<and> groups_only A r2)"
| "groups_only A (Rep m n r) = groups_only A r"
| "groups_only A (Grp r) = (takes_only A r \<and> groups_only A r)"
| "groups_only A r = True"

text \<open>A string of at most \<open>n\<close> characters, all of them satisfying \<open>A\<close>.\<close>

definition short_over :: "(nat \<Rightarrow> bool) \<Rightarrow> nat \<Rightarrow> pystr \<Rightarrow> bool" where
  "short_over A n t = (list_all A t \<and> length t \<le> n)"

section \<open>Properties of the normalizer\<close>

lemma rstrip_chr_decomp: "\<exists>k. s = rstrip_chr c s @ replicate k c"
proof -
  let ?t = "takeWhile (\<lambda>x. x = c) (rev s)"
  let ?d = "dropWhile (\<lambda>x. x = c) (rev s)"
  have "?t = replicate (length ?t) c"
    by (metis (mono_tags, lifting) replicate_length_same set_takeWhileD)
  moreover have "rev s = ?t @ ?d"
    by simp
  ultimately have "rev s = replicate (length ?t) c @ ?d"
    by simp
  then have "s = rev ?d @ replicate (length ?t) c"
    by (metis rev_append rev_replicate rev_rev_ident)
  then show ?thesis
    unfolding rstrip_chr_def by blast
qed

lemma rstrip_chr_no_last: "rstrip_chr c s \<noteq> p @ [c]"
proof
  assume "rstrip_chr c s = p @ [c]"
  then have "dropWhile (\<lambda>x. x = c) (rev s) = c # rev p"
    unfolding rstrip_chr_def by (metis rev.simps(2) rev_rev_ident rev_swap)
  then show False
    by (metis (full_types) hd_dropWhile list.sel(1) list.distinct(1))
qed

lemma rstrip_chr_idem: "rstrip_chr c (rstrip_chr c s) = rstrip_chr c s"
  unfolding rstrip_chr_def by (simp add: dropWhile_idem)

lemma set_rstrip_chr: "set (rstrip_chr c s) \<subseteq> set s"
  unfolding rstrip_chr_def using set_dropWhileD [of _ "\<lambda>x. x = c" "rev s"] by auto

lemma remove_chr_id: "c \<notin> set s \<Longrightarrow> remove_chr c s = s"
  unfolding remove_chr_def by (induction s) auto

text \<open>
  Claim C7, as the code has it. For every token, the normalized token holds no comma; it
  is the token without its commas and without the whole run of percent signs at its end
  (so it never ends in a percent sign, however many the token ended in); and normalizing
  it again changes nothing.
\<close>

theorem normalize_number_token_strips_all:
  "44 \<notin> set (normalize_number_token tok)
   \<and> (\<exists>k. filter (\<lambda>x. x \<noteq> 44) tok = normalize_number_token tok @ replicate k 37)
   \<and> (\<nexists>p. normalize_number_token tok = p @ [37])
   \<and> normalize_number_token (normalize_number_token tok) = normalize_number_token tok"
proof -
  have a: "44 \<notin> set (normalize_number_token tok)"
    using set_rstrip_chr [of 37 "remove_chr 44 tok"]
    by (auto simp: normalize_number_token_def remove_chr_def)
  have b: "\<exists>k. filter (\<lambda>x. x \<noteq> 44) tok = normalize_number_token tok @ replicate k 37"
    using rstrip_chr_decomp [of "remove_chr 44 tok" 37]
    by (simp add: normalize_number_token_def remove_chr_def)
  have c: "\<nexists>p. normalize_number_token tok = p @ [37]"
    using rstrip_chr_no_last [of 37 "remove_chr 44 tok"]
    by (simp add: normalize_number_token_def)
  have d: "normalize_number_token (normalize_number_token tok) = normalize_number_token tok"
    using a by (simp add: normalize_number_token_def remove_chr_id rstrip_chr_idem)
  from a b c d show ?thesis by blast
qed

text \<open>
  Claim C7 as stated fails: of the two percent signs that end \<^verbatim>\<open>5%%\<close> the code strips
  both, where stripping one would leave \<^verbatim>\<open>5%\<close>.
\<close>

theorem normalize_one_percent_counterexample:
  "normalize_number_token (ustr ''5%%'') \<noteq> normalize_spec (ustr ''5%%'')"
  by (simp add: normalize_number_token_def normalize_spec_def remove_chr_def rstrip_chr_def
      ustr_def)

section \<open>Evaluation rules\<close>

lemmas tok_defs =
  numbers_from_text_def scorelines_from_text_def ustr_def or_empty_def NUM_RE_def SCORE_RE_def
  scan.simps match_at_def rest_def is_digit_def is_space_def is_word_def ascii_digit_def ascii_letter_def
  dec_max_def word_before_def word_after_def hyphen_or_dash_def pair_of_groups_def
  score_parts_def

lemmas float_defs =
  py_float_def to_ascii_def without_underscores_def strip_space_def c_space_def split_sign_def
  parse_decimal_def parse_exponent_def parse_inf_or_nan_def digits_value_def
  decimal_to_double_def nearest_double_def floor_log2_def rhe_scaled_def rhe_div_def
  bit_length.simps round_to_int_def round_digits_def dec_str.simps str_int_def zero_pad_def
  format_f_def to_lower_def Let_def

lemmas cmp_defs =
  variants_def normalize_number_token_def remove_chr_def rstrip_chr_def index_fact_numbers_def
  value_text_def ALLOW_def unique_preserve_order_def assert_numbers_in_facts_def

section \<open>The first match of a pattern\<close>

lemma match_at_first: "match_at r p s = first_result r (p, s, [])"
  by (simp add: match_at_def first_result_def)

lemma first_Cat:
  assumes "first_result r1 st = Some x" and "first_result r2 x = Some y"
  shows "first_result (Cat r1 r2) st = Some y"
proof -
  obtain p s g where st: "st = (p, s, g)" by (cases st)
  from assms(1) obtain xs where r1: "run r1 st = x # xs"
    by (auto simp: first_result_def split: list.splits)
  from assms(2) obtain ys where r2: "run r2 x = y # ys"
    by (auto simp: first_result_def split: list.splits)
  show ?thesis using r1 r2 by (simp add: st first_result_def)
qed

lemma first_Grp:
  assumes "first_result r (p, s, g) = Some (p', s', g')"
  shows "first_result (Grp r) (p, s, g) = Some (p', s', g' @ [take (length s - length s') s])"
  using assms by (auto simp: first_result_def rest_def split: list.splits)

lemma run_Cls_fail: "s = [] \<or> \<not> f (hd s) \<Longrightarrow> run (Cls f) (p, s, g) = []"
  by (cases s) auto

lemma run_Chr_fail: "s = [] \<or> hd s \<noteq> c \<Longrightarrow> run (Chr c) (p, s, g) = []"
  by (cases s) auto

lemma first_Rep_skip:
  assumes "run r (p, s, g) = []"
  shows "first_result (Rep 0 n r) (p, s, g) = Some (p, s, g)"
  using assms by (simp add: first_result_def)

text \<open>
  A greedy repetition of a character class over a run of characters of the class, which
  ends where the class ends, first takes the whole run.
\<close>

lemma run_Rep_Cls_all:
  assumes "ds \<noteq> []" and "list_all f ds" and "r = [] \<or> \<not> f (hd r)"
    and "m \<le> length ds" and "case n of None \<Rightarrow> True | Some k \<Rightarrow> length ds \<le> k"
  shows "\<exists>zs. run (Rep m n (Cls f)) (p, ds @ r, g) = (Some (last ds), r, g) # zs"
  using assms
proof (induction ds arbitrary: p m n)
  case Nil
  then show ?case by simp
next
  case (Cons d ds)
  have fd: "f d" using Cons.prems(2) by simp
  have n0: "n \<noteq> Some 0" using Cons.prems(5) by (auto split: option.splits)
  have step: "run (Rep m n (Cls f)) (p, (d # ds) @ r, g) =
      run (Rep (m - 1) (dec_max n) (Cls f)) (Some d, ds @ r, g)
      @ (if m = 0 then [(p, (d # ds) @ r, g)] else [])"
    using fd n0 by (simp add: rest_def)
  show ?case
  proof (cases "ds = []")
    case True
    have m1: "m - 1 = 0" using Cons.prems(4) True by simp
    have "run (Cls f) (Some d, r, g) = []"
      using Cons.prems(3) by (rule run_Cls_fail)
    then have "run (Rep 0 (dec_max n) (Cls f)) (Some d, r, g) = [(Some d, r, g)]"
      by simp
    then show ?thesis using step True unfolding m1 by simp
  next
    case False
    have b: "case dec_max n of None \<Rightarrow> True | Some k \<Rightarrow> length ds \<le> k"
      using Cons.prems(5) by (auto simp: dec_max_def split: option.splits)
    have "list_all f ds" using Cons.prems(2) by simp
    moreover have "m - 1 \<le> length ds" using Cons.prems(4) by simp
    ultimately obtain zs where
      "run (Rep (m - 1) (dec_max n) (Cls f)) (Some d, ds @ r, g) = (Some (last ds), r, g) # zs"
      using Cons.IH [OF False _ Cons.prems(3) _ b] by blast
    then show ?thesis using step False by simp
  qed
qed

lemma first_Rep_Cls_all:
  assumes "ds \<noteq> []" and "list_all f ds" and "r = [] \<or> \<not> f (hd r)"
    and "m \<le> length ds" and "case n of None \<Rightarrow> True | Some k \<Rightarrow> length ds \<le> k"
  shows "first_result (Rep m n (Cls f)) (p, ds @ r, g) = Some (Some (last ds), r, g)"
proof -
  from run_Rep_Cls_all [OF assms, of p g] obtain zs where
    "run (Rep m n (Cls f)) (p, ds @ r, g) = (Some (last ds), r, g) # zs" ..
  then show ?thesis by (simp add: first_result_def)
qed

section \<open>Matches of the two patterns on digit runs\<close>

lemma ascii_digit_is_digit: "ascii_digit c \<Longrightarrow> is_digit c"
  by (simp add: is_digit_def ascii_digit_def)

lemma ascii_digit_is_word: "ascii_digit c \<Longrightarrow> is_word c"
  by (simp add: is_word_def ascii_digit_def)

lemma list_all_ascii_digit_is_digit: "list_all ascii_digit ds \<Longrightarrow> list_all is_digit ds"
  by (induction ds) (auto simp: ascii_digit_is_digit)

lemma run_Cat_fail: "run r1 (p, s, g) = [] \<Longrightarrow> run (Cat r1 r2) (p, s, g) = []"
  by simp

lemma first_NotBehind:
  "\<not> letter_before p \<Longrightarrow> first_result (NotBehind ascii_letter) (p, s, g) = Some (p, s, g)"
  by (auto simp: first_result_def letter_before_def split: option.splits)

lemma first_NotAhead:
  "s = [] \<or> \<not> f (hd s) \<Longrightarrow> first_result (NotAhead f) (p, s, g) = Some (p, s, g)"
  by (cases s) (auto simp: first_result_def)

lemma num_tail_first:
  assumes "num_end r"
  shows "first_result
           (Cat (Star (Cat (Chr 44) (Rep 3 (Some 3) (Cls is_digit))))
           (Cat (Opt (Cat (Chr 46) (Plus (Cls is_digit))))
           (Cat (Opt (Chr 37))
                (NotAhead ascii_letter)))) (p, r, g) = Some (p, r, g)"
proof -
  have e: "r = [] \<or> (hd r \<noteq> 44 \<and> hd r \<noteq> 46 \<and> hd r \<noteq> 37 \<and> \<not> ascii_letter (hd r))"
    using assms by (cases r) (auto simp: num_end_def)
  have 1: "first_result (Star (Cat (Chr 44) (Rep 3 (Some 3) (Cls is_digit)))) (p, r, g) = Some (p, r, g)"
    using e by (intro first_Rep_skip run_Cat_fail run_Chr_fail) auto
  have 2: "first_result (Opt (Cat (Chr 46) (Plus (Cls is_digit)))) (p, r, g) = Some (p, r, g)"
    using e by (intro first_Rep_skip run_Cat_fail run_Chr_fail) auto
  have 3: "first_result (Opt (Chr 37)) (p, r, g) = Some (p, r, g)"
    using e by (intro first_Rep_skip run_Chr_fail) auto
  have 4: "first_result (NotAhead ascii_letter) (p, r, g) = Some (p, r, g)"
    using e by (intro first_NotAhead) auto
  show ?thesis
    by (intro first_Cat [OF 1] first_Cat [OF 2] first_Cat [OF 3] 4)
qed

lemma num_first:
  assumes "a \<noteq> []" and "list_all ascii_digit a" and "length a \<le> 3" and "num_end r"
    and "\<not> letter_before p"
  shows "first_result NUM_RE (p, a @ r, g) = Some (Some (last a), r, g)"
proof -
  have hd_a: "ascii_digit (hd a)" using assms(1,2) by (cases a) auto
  have d: "list_all is_digit a" using assms(2) by (rule list_all_ascii_digit_is_digit)
  have nd: "r = [] \<or> \<not> is_digit (hd r)"
    using assms(4) by (cases r) (auto simp: num_end_def)
  have 0: "first_result (NotBehind ascii_letter) (p, a @ r, g) = Some (p, a @ r, g)"
    using assms(5) by (rule first_NotBehind)
  have 1: "first_result (Opt (Chr 45)) (p, a @ r, g) = Some (p, a @ r, g)"
    using hd_a assms(1) by (intro first_Rep_skip run_Chr_fail) (auto simp: ascii_digit_def)
  have 2: "first_result (Rep 1 (Some 3) (Cls is_digit)) (p, a @ r, g) = Some (Some (last a), r, g)"
    using assms(1,3) by (intro first_Rep_Cls_all d nd) (auto simp: Suc_le_eq)
  show ?thesis
    unfolding NUM_RE_def
    by (intro first_Cat [OF 0] first_Cat [OF 1] first_Cat [OF 2] num_tail_first assms(4))
qed

lemma num_first_signed:
  assumes "a \<noteq> []" and "list_all ascii_digit a" and "length a \<le> 3" and "num_end r"
    and "\<not> letter_before p"
  shows "first_result NUM_RE (p, 45 # a @ r, g) = Some (Some (last a), r, g)"
proof -
  have d: "list_all is_digit a" using assms(2) by (rule list_all_ascii_digit_is_digit)
  have nd: "r = [] \<or> \<not> is_digit (hd r)"
    using assms(4) by (cases r) (auto simp: num_end_def)
  have 0: "first_result (NotBehind ascii_letter) (p, 45 # a @ r, g) = Some (p, 45 # a @ r, g)"
    using assms(5) by (rule first_NotBehind)
  have 1: "first_result (Opt (Chr 45)) (p, 45 # a @ r, g) = Some (Some 45, a @ r, g)"
    by (simp add: first_result_def rest_def dec_max_def)
  have 2: "first_result (Rep 1 (Some 3) (Cls is_digit)) (Some 45, a @ r, g) = Some (Some (last a), r, g)"
    using assms(1,3) by (intro first_Rep_Cls_all d nd) (auto simp: Suc_le_eq)
  show ?thesis
    unfolding NUM_RE_def
    by (intro first_Cat [OF 0] first_Cat [OF 1] first_Cat [OF 2] num_tail_first assms(4))
qed

lemma run_NUM_RE_Nil: "run NUM_RE (p, [], g) = []"
  by (cases p) (simp_all add: NUM_RE_def dec_max_def rest_def)

lemma first_Cls:
  "f c \<Longrightarrow> first_result (Cls f) (p, c # s, g) = Some (Some c, s, g)"
  by (simp add: first_result_def)

lemma last_ascii_digit: "a \<noteq> [] \<Longrightarrow> list_all ascii_digit a \<Longrightarrow> ascii_digit (last a)"
  by (induction a) (auto split: if_splits)

lemma hd_ascii_digit: "a \<noteq> [] \<Longrightarrow> list_all ascii_digit a \<Longrightarrow> ascii_digit (hd a)"
  by (cases a) auto

lemma score_first:
  assumes "a \<noteq> []" and "list_all ascii_digit a" and "b \<noteq> []" and "list_all ascii_digit b"
    and "\<not> word_before p"
  shows "first_result SCORE_RE (p, a @ 45 # b, []) = Some (Some (last b), [], [a, b])"
proof -
  let ?s = "a @ 45 # b"
  have da: "list_all is_digit a" and db: "list_all is_digit b"
    using assms(2,4) by (auto intro: list_all_ascii_digit_is_digit)
  have ha: "ascii_digit (hd a)" and hb: "ascii_digit (hd b)" and lb: "ascii_digit (last b)"
    using assms(1-4) by (auto intro: hd_ascii_digit last_ascii_digit)
  have 0: "first_result WordB (p, ?s, []) = Some (p, ?s, [])"
    using assms(1,5) ha
    by (cases a) (auto simp: first_result_def word_after_def ascii_digit_is_word)
  have "first_result (Plus (Cls is_digit)) (p, a @ (45 # b), []) = Some (Some (last a), 45 # b, [])"
    using assms(1) by (intro first_Rep_Cls_all da) (auto simp: is_digit_def ascii_digit_def Suc_le_eq)
  from first_Grp [OF this]
  have 1: "first_result (Grp (Plus (Cls is_digit))) (p, ?s, []) = Some (Some (last a), 45 # b, [a])"
    by simp
  have 2: "first_result (Star (Cls is_space)) (Some (last a), 45 # b, [a]) = Some (Some (last a), 45 # b, [a])"
    by (intro first_Rep_skip run_Cls_fail) (simp add: is_space_def)
  have 3: "first_result (Cls hyphen_or_dash) (Some (last a), 45 # b, [a]) = Some (Some 45, b, [a])"
    by (intro first_Cls) (simp add: hyphen_or_dash_def)
  have 4: "first_result (Star (Cls is_space)) (Some 45, b, [a]) = Some (Some 45, b, [a])"
    using hb by (intro first_Rep_skip run_Cls_fail) (auto simp: is_space_def ascii_digit_def)
  have "first_result (Plus (Cls is_digit)) (Some 45, b @ [], [a]) = Some (Some (last b), [], [a])"
    using assms(3) by (intro first_Rep_Cls_all db) (auto simp: Suc_le_eq)
  from first_Grp [OF this]
  have 5: "first_result (Grp (Plus (Cls is_digit))) (Some 45, b, [a]) = Some (Some (last b), [], [a, b])"
    by simp
  have 6: "first_result WordB (Some (last b), [], [a, b]) = Some (Some (last b), [], [a, b])"
    using lb by (simp add: first_result_def word_before_def word_after_def ascii_digit_is_word)
  show ?thesis
    unfolding SCORE_RE_def
    by (intro first_Cat [OF 0] first_Cat [OF 1] first_Cat [OF 2] first_Cat [OF 3]
        first_Cat [OF 4] first_Cat [OF 5] 6)
qed

lemma run_SCORE_RE_Nil: "run SCORE_RE (p, [], g) = []"
  by (simp add: SCORE_RE_def word_after_def rest_def dec_max_def)

lemma match_at_Nil_SCORE: "match_at SCORE_RE p [] = None"
  by (simp add: match_at_def run_SCORE_RE_Nil)

lemma match_at_Nil_NUM: "match_at NUM_RE p [] = None"
  by (simp add: match_at_def run_NUM_RE_Nil)

lemma scorelines_digits:
  assumes "a \<noteq> []" and "list_all ascii_digit a" and "b \<noteq> []" and "list_all ascii_digit b"
  shows "scorelines_from_text (Some (a @ 45 # b)) = [(a, b)]"
proof -
  have m: "match_at SCORE_RE None (a @ 45 # b) = Some (Some (last b), [], [a, b])"
    unfolding match_at_first using assms by (intro score_first) (auto simp: word_before_def)
  have "scan SCORE_RE None (a @ 45 # b) = [(a @ 45 # b, [a, b])]"
    by (simp add: scan.simps m rest_def match_at_Nil_SCORE)
  then show ?thesis
    by (simp add: scorelines_from_text_def or_empty_def pair_of_groups_def)
qed

lemma numbers_digits:
  assumes "a \<noteq> []" and "list_all ascii_digit a" and "length a \<le> 3"
    and "b \<noteq> []" and "list_all ascii_digit b" and "length b \<le> 3"
  shows "numbers_from_text (Some (a @ 45 # b)) = [a, 45 # b]"
proof -
  have la: "ascii_digit (last a)" using assms(1,2) by (rule last_ascii_digit)
  have e: "num_end (45 # b)"
    by (simp add: num_end_def is_digit_def ascii_digit_def ascii_letter_def)
  have m1: "match_at NUM_RE None (a @ 45 # b) = Some (Some (last a), 45 # b, [])"
    unfolding match_at_first using assms(1-3) e
    by (intro num_first) (auto simp: letter_before_def)
  have nl: "\<not> letter_before (Some (last a))"
    using la by (auto simp: letter_before_def ascii_letter_def ascii_digit_def)
  have "first_result NUM_RE (Some (last a), 45 # b @ [], []) = Some (Some (last b), [], [])"
    using assms(4-6) nl by (intro num_first_signed) (auto simp: num_end_def)
  then have m2: "match_at NUM_RE (Some (last a)) (45 # b) = Some (Some (last b), [], [])"
    by (simp add: match_at_first)
  have s2: "scan NUM_RE (Some (last a)) (45 # b) = [(45 # b, [])]"
    by (simp add: scan.simps m2 rest_def match_at_Nil_NUM)
  have "scan NUM_RE None (a @ 45 # b) = [(a, []), (45 # b, [])]"
    using assms(1) by (simp add: scan.simps m1 rest_def m2 match_at_Nil_NUM)
  then show ?thesis
    by (simp add: numbers_from_text_def or_empty_def)
qed

section \<open>Numbers too large for a double\<close>

lemma bit_length_bounds: "0 < n \<Longrightarrow> 2 ^ (bit_length n - 1) \<le> n \<and> n < 2 ^ bit_length n"
proof (induction n rule: bit_length.induct)
  case (1 n)
  show ?case
  proof (cases "n div 2 = 0")
    case True
    with 1(2) have "n = 1" by (simp add: div_eq_0_iff) 
    then show ?thesis by (simp add: bit_length.simps)
  next
    case False
    then have pos: "0 < n div 2" by simp
    from 1(1) [OF _ pos] 1(2)
    have ih: "2 ^ (bit_length (n div 2) - 1) \<le> n div 2" "n div 2 < 2 ^ bit_length (n div 2)"
      by auto
    have bl: "bit_length n = Suc (bit_length (n div 2))"
      using 1(2) by (simp add: bit_length.simps [of n])
    have blpos: "0 < bit_length (n div 2)"
      using pos by (simp add: bit_length.simps [of "n div 2"])
    have "2 ^ (bit_length n - 1) = 2 * 2 ^ (bit_length (n div 2) - 1)"
      using bl blpos by (cases "bit_length (n div 2)") auto
    also have "\<dots> \<le> 2 * (n div 2)" using ih(1) by simp
    also have "\<dots> \<le> n" by simp
    finally have lo: "2 ^ (bit_length n - 1) \<le> n" .
    have "n < 2 * (n div 2) + 2" by presburger
    also have "\<dots> \<le> 2 * 2 ^ bit_length (n div 2)" using ih(2) by simp
    finally have hi: "n < 2 ^ bit_length n" using bl by simp
    from lo hi show ?thesis by simp
  qed
qed

lemma rhe_div_ge: "a div b \<le> rhe_div a b"
  by (simp add: rhe_div_def Let_def)

lemma nearest_double_overflow:
  assumes "2 ^ 1024 \<le> a"
  shows "nearest_double sign a 1 = Infinity sign"
proof -
  have pos: "0 < a"
    using assms by (metis gr0I not_less zero_less_numeral zero_less_power less_le_trans le_refl)
  define bl where "bl = bit_length a"
  from bit_length_bounds [OF pos]
  have lo: "2 ^ (bl - 1) \<le> a" and hi: "a < 2 ^ bl" by (auto simp: bl_def)
  have "(2::nat) ^ 1024 < 2 ^ bl" using assms hi by simp
  then have big: "1024 < bl" by (simp only: power_strict_increasing_iff one_less_numeral_iff semiring_norm)
  have one: "bit_length (Suc 0) = Suc 0" by (simp add: bit_length.simps)
  have fl: "floor_log2 a (Suc 0) = int bl - 1"
    using lo big by (simp add: floor_log2_def one Let_def bl_def [symmetric] nat_diff_distrib)
  define k where "k = bl - 53"
  have e: "max (floor_log2 a (Suc 0) - 52) (- 1074) = int k"
    using big by (simp add: fl k_def)
  have bk: "bl - 1 = 52 + k" using big by (simp add: k_def)
  have split: "(2::nat) ^ (bl - 1) = 2 ^ 52 * 2 ^ k"
    by (simp only: bk power_add)
  have "(2::nat) ^ 52 * 2 ^ k \<le> a" using lo by (simp only: split)
  then have "(2::nat) ^ 52 \<le> a div 2 ^ k"
    by (simp only: less_eq_div_iff_mult_less_eq zero_less_power zero_less_numeral)
  then have m: "(2::nat) ^ 52 \<le> rhe_div a (2 ^ k)"
    using rhe_div_ge [of a "2 ^ k"] by (rule le_trans)
  have "1024 \<le> bl - 1" using big by simp
  then have "(2::nat) ^ 1024 \<le> 2 ^ (bl - 1)"
    by (intro power_increasing) simp_all
  also have "\<dots> = 2 ^ 52 * 2 ^ k" by (rule split)
  also have "\<dots> \<le> rhe_div a (2 ^ k) * 2 ^ k" using m by (rule mult_le_mono1)
  finally have ov: "2 ^ 1024 \<le> rhe_div a (2 ^ k) * 2 ^ k" .
  show ?thesis
    using pos ov by (simp add: nearest_double_def e Let_def rhe_scaled_def del: power_numeral)
qed

lemma ascii_digit_facts:
  assumes "ascii_digit c"
  shows "c < 128" "c \<noteq> 95" "\<not> c_space c" "c \<noteq> 45" "c \<noteq> 43" "c \<noteq> 44" "c \<noteq> 37" "c \<noteq> 46"
  using assms by (auto simp: ascii_digit_def c_space_def)

lemma py_float_digits:
  assumes "ds \<noteq> []" and "list_all ascii_digit ds"
  shows "py_float ds = Some (nearest_double False (digits_value ds) 1)"
proof -
  have all: "\<And>c. c \<in> set ds \<Longrightarrow> ascii_digit c"
    using assms(2) by (simp add: list_all_iff)
  have h: "ascii_digit (hd ds)" and l: "ascii_digit (last ds)"
    using assms all by auto
  have a: "to_ascii ds = ds"
    using all by (auto simp: to_ascii_def list_all_iff dest: ascii_digit_facts(1))
  have u: "without_underscores ds = Some ds"
    using all by (auto simp: without_underscores_def dest: ascii_digit_facts(2))
  have "dropWhile c_space ds = ds"
    using h by (auto simp: dropWhile_eq_self_iff dest: ascii_digit_facts(3))
  moreover have "dropWhile c_space (rev ds) = rev ds"
    using l assms(1) by (auto simp: dropWhile_eq_self_iff hd_rev dest: ascii_digit_facts(3))
  ultimately have s: "strip_space ds = ds"
    by (simp add: strip_space_def)
  have sg: "split_sign ds = (False, ds)"
    using assms(1) h by (cases ds) (auto simp: split_sign_def dest: ascii_digit_facts)
  have tw: "takeWhile ascii_digit ds = ds" and dw: "dropWhile ascii_digit ds = []"
    using all by (auto simp: takeWhile_eq_all_conv)
  have pd: "parse_decimal False ds = Some (nearest_double False (digits_value ds) 1)"
    using assms(1)
    by (simp add: parse_decimal_def tw dw parse_exponent_def decimal_to_double_def Let_def)
  show ?thesis
    by (simp add: py_float_def a u s sg pd)
qed

lemma variants_overflow:
  assumes "ds \<noteq> []" and "list_all ascii_digit ds" and "2 ^ 1024 \<le> digits_value ds"
  shows "variants ds = Inl OverflowError"
proof -
  have "py_float ds = Some (Infinity False)"
    by (simp only: py_float_digits [OF assms(1,2)] nearest_double_overflow [OF assms(3)])
  then show ?thesis
    by (simp add: variants_def round_to_int_def)
qed

lemma digits_value_snoc: "digits_value (ds @ [c]) = 10 * digits_value ds + (c - 48)"
  by (simp add: digits_value_def)

lemma digits_value_one_zeros: "digits_value (49 # replicate n 48) = 10 ^ n"
proof (induction n)
  case 0
  show ?case by (simp add: digits_value_def)
next
  case (Suc n)
  have "49 # replicate (Suc n) 48 = (49 # replicate n 48) @ [48::nat]"
    by (simp add: replicate_append_same)
  then show ?case
    using Suc by (simp only: digits_value_snoc) simp
qed

lemma normalize_digits:
  assumes "list_all ascii_digit ds"
  shows "normalize_number_token ds = ds"
proof -
  have all: "\<And>c. c \<in> set ds \<Longrightarrow> ascii_digit c"
    using assms by (simp add: list_all_iff)
  have r: "remove_chr 44 ds = ds"
    using all by (intro remove_chr_id) (auto dest: ascii_digit_facts(6))
  have "dropWhile (\<lambda>x. x = 37) (rev ds) = rev ds"
  proof (cases "ds = []")
    case True
    then show ?thesis by simp
  next
    case False
    then have "ascii_digit (last ds)" using all by simp
    then show ?thesis
      using False by (auto simp: dropWhile_eq_self_iff hd_rev dest: ascii_digit_facts(7))
  qed
  then show ?thesis
    by (simp add: normalize_number_token_def r rstrip_chr_def)
qed

lemma ALLOW_short: "x \<in> ALLOW \<Longrightarrow> length x \<le> 4"
  by (auto simp: ALLOW_def ustr_def)

lemma big_number_digits: "big_number \<noteq> []" "list_all ascii_digit big_number"
  by (simp_all add: big_number_def list_all_iff ascii_digit_def)

lemma big_number_value: "2 ^ 1024 \<le> digits_value big_number"
  unfolding big_number_def digits_value_one_zeros by simp

lemma variants_big_number: "variants big_number = Inl OverflowError"
  by (rule variants_overflow [OF big_number_digits big_number_value])

lemma big_number_not_allowed: "big_number \<notin> ALLOW"
  using ALLOW_short [of big_number] by (auto simp: big_number_def)

section \<open>The loops, in closed form\<close>

subsection \<open>Order-preserving deduplication\<close>

lemma unique_loop_append:
  "unique_loop seen (out @ acc) xs = out @ unique_loop seen acc xs"
  by (induction xs arbitrary: seen acc) auto

lemma remdups_snoc: "remdups (ys @ [x]) = remdups (filter (\<lambda>y. y \<noteq> x) ys) @ [x]"
  by (induction ys) auto

lemma rev_remdups_rev_Cons:
  "rev (remdups (rev (x # xs))) = x # rev (remdups (rev (filter (\<lambda>y. y \<noteq> x) xs)))"
  by (simp add: remdups_snoc rev_filter)

lemma unique_loop_eq:
  "unique_loop seen [] xs = rev (remdups (rev (filter (\<lambda>y. y \<notin> seen) xs)))"
proof (induction xs arbitrary: seen)
  case Nil
  show ?case by simp
next
  case (Cons x xs)
  show ?case
  proof (cases "x \<in> seen")
    case True
    then show ?thesis using Cons.IH [of seen] by simp
  next
    case False
    have "unique_loop seen [] (x # xs) = unique_loop (insert x seen) ([x] @ []) xs"
      using False by simp
    also have "\<dots> = x # unique_loop (insert x seen) [] xs"
      by (simp only: unique_loop_append) simp
    also have "\<dots> = x # rev (remdups (rev (filter (\<lambda>y. y \<notin> insert x seen) xs)))"
      by (simp only: Cons.IH)
    also have "filter (\<lambda>y. y \<notin> insert x seen) xs = filter (\<lambda>y. y \<noteq> x) (filter (\<lambda>y. y \<notin> seen) xs)"
      by (induction xs) auto
    finally show ?thesis
      using False by (simp add: rev_remdups_rev_Cons del: rev.simps remdups.simps)
  qed
qed

lemma unique_preserve_order_eq: "unique_preserve_order xs = rev (remdups (rev xs))"
  by (simp add: unique_preserve_order_def unique_loop_eq)

lemma unique_preserve_order_filter:
  "unique_preserve_order (filter P xs) = filter P (unique_preserve_order xs)"
  by (simp add: unique_preserve_order_eq rev_filter remdups_filter)

lemma distinct_unique_preserve_order: "distinct (unique_preserve_order xs)"
  by (simp add: unique_preserve_order_eq)

lemma set_unique_preserve_order: "set (unique_preserve_order xs) = set xs"
  by (simp add: unique_preserve_order_eq)

subsection \<open>The loops of the comparator\<close>

lemma ALLOW_no_comma: "x \<in> ALLOW \<Longrightarrow> 44 \<notin> set x"
  by (auto simp: ALLOW_def ustr_def)

lemma rstrip_allowed:
  assumes "rstrip_chr 37 t \<in> ALLOW"
  shows "normalize_number_token t \<in> ALLOW"
proof -
  obtain k where t: "t = rstrip_chr 37 t @ replicate k 37"
    using rstrip_chr_decomp [of t 37] by blast
  have "44 \<notin> set (rstrip_chr 37 t)" using assms by (rule ALLOW_no_comma)
  then have "44 \<notin> set t" by (subst t) auto
  then have "remove_chr 44 t = t" by (rule remove_chr_id)
  then show ?thesis using assms by (simp add: normalize_number_token_def)
qed

lemma score_loop_eq:
  "score_loop idx acc ps =
     (case first_error ps of Some err \<Rightarrow> Inl err | None \<Rightarrow> Inr (acc @ filter (flagged idx) ps))"
  by (induction ps arbitrary: acc) (auto simp: flagged_def Let_def split: sum.splits option.splits)

lemma token_loop_eq:
  "token_loop idx acc ts =
     (case first_error ts of Some err \<Rightarrow> Inl err | None \<Rightarrow> Inr (acc @ filter (flagged idx) ts))"
  by (induction ts arbitrary: acc)
     (auto simp: flagged_def Let_def rstrip_allowed split: sum.splits option.splits)

lemma first_error_append:
  "first_error (xs @ ys) = (case first_error xs of Some err \<Rightarrow> Some err | None \<Rightarrow> first_error ys)"
  by (induction xs) (auto split: sum.splits)

lemma assert_numbers_in_facts_eq:
  "assert_numbers_in_facts body facts =
     (case index_fact_numbers facts of
        Inl err \<Rightarrow> Inl err
      | Inr idx \<Rightarrow>
          (case first_error (tokens_of (or_empty body)) of
             Some err \<Rightarrow> Inl err
           | None \<Rightarrow> Inr (unique_preserve_order (filter (flagged idx) (tokens_of (or_empty body))))))"
  by (auto simp: assert_numbers_in_facts_def score_loop_eq token_loop_eq tokens_of_def
      first_error_append split: sum.splits option.splits)

subsection \<open>The loops of the indexer\<close>

lemma update_variants_eq:
  "update_variants bag ts =
     (case first_raise ts of
        Some err \<Rightarrow> Inl err
      | None \<Rightarrow> Inr (bag \<union> (\<Union>t\<in>set ts. variant_set t)))"
  by (induction ts arbitrary: bag) (auto simp: variant_set_def split: sum.splits option.splits)

lemma first_raise_append:
  "first_raise (xs @ ys) = (case first_raise xs of Some err \<Rightarrow> Some err | None \<Rightarrow> first_raise ys)"
  by (induction xs) (auto split: sum.splits)

lemma update_variants_append:
  "update_variants bag (xs @ ys) =
     (case update_variants bag xs of Inl err \<Rightarrow> Inl err | Inr b \<Rightarrow> update_variants b ys)"
  by (induction xs arbitrary: bag) (auto split: sum.splits)

lemma index_loop_eq:
  "index_loop bag fs = update_variants bag (concat (map (\<lambda>f. tokens_of (value_text f)) fs))"
  by (induction fs arbitrary: bag)
     (auto simp: update_variants_append tokens_of_def split: sum.splits)

lemma index_fact_numbers_eq:
  "index_fact_numbers (Some fs) =
     (case first_raise (concat (map (\<lambda>f. tokens_of (value_text f)) fs)) of
        Some err \<Rightarrow> Inl err
      | None \<Rightarrow> Inr (\<Union>f\<in>set fs. \<Union>t\<in>set (tokens_of (value_text f)). variant_set t))"
  by (simp add: index_fact_numbers_def index_loop_eq update_variants_eq split: option.splits)

section \<open>Every token holds a digit\<close>

lemma run_suffix: "st' \<in> set (run r st) \<Longrightarrow> \<exists>u. rest st = u @ rest st'"
proof (induction r st arbitrary: st' rule: run.induct)
  case (1 c p s g)
  then show ?case by (cases s) (auto simp: rest_def split: if_splits)
next
  case (2 f p s g)
  then show ?case by (cases s) (auto simp: rest_def split: if_splits)
next
  case (3 r1 r2 p s g)
  from 3(3) obtain x where x: "x \<in> set (run r1 (p, s, g))" and st': "st' \<in> set (run r2 x)"
    by auto
  from 3(1) [OF x] obtain u1 where "rest (p, s, g) = u1 @ rest x" by blast
  moreover from 3(2) [OF x st'] obtain u2 where "rest x = u2 @ rest st'" by blast
  ultimately show ?case by simp
next
  case (4 m n r p s g)
  from 4(3) consider
    (iter) x where "n \<noteq> Some 0" "x \<in> set (run r (p, s, g))" "length (rest x) < length s"
      "st' \<in> set (run (Rep (m - 1) (dec_max n) r) x)"
    | (stop) "st' = (p, s, g)"
    by (auto split: if_splits)
  then show ?case
  proof cases
    case iter
    from 4(1) [OF iter(1,2)] obtain u1 where "rest (p, s, g) = u1 @ rest x" by blast
    moreover from 4(2) [OF iter(1,2,3,4)] obtain u2 where "rest x = u2 @ rest st'" by blast
    ultimately show ?thesis by simp
  next
    case stop
    then show ?thesis by simp
  qed
next
  case (5 r p s g)
  from 5(2) obtain x where x: "x \<in> set (run r (p, s, g))" and "rest st' = rest x"
    by (auto simp: rest_def)
  with 5(1) [OF x] show ?case by simp
next
  case (6 f p s g)
  then show ?case by (auto split: option.splits if_splits)
next
  case (7 f p s g)
  then show ?case by (auto split: list.splits if_splits)
next
  case (8 p s g)
  then show ?case by (auto split: if_splits)
qed

lemma run_digit:
  "has_digit r \<Longrightarrow> st' \<in> set (run r st) \<Longrightarrow> \<exists>u. rest st = u @ rest st' \<and> with_digit u"
proof (induction r st arbitrary: st' rule: run.induct)
  case (1 c p s g)
  then show ?case by (cases s) (auto simp: rest_def with_digit_def split: if_splits)
next
  case (2 f p s g)
  then show ?case by (cases s) (auto simp: rest_def with_digit_def split: if_splits)
next
  case (3 r1 r2 p s g)
  from 3(4) obtain x where x: "x \<in> set (run r1 (p, s, g))" and st': "st' \<in> set (run r2 x)"
    by auto
  show ?case
  proof (cases "has_digit r1")
    case True
    from 3(1) [OF True x] obtain u1 where "rest (p, s, g) = u1 @ rest x" "with_digit u1"
      by blast
    moreover from run_suffix [OF st'] obtain u2 where "rest x = u2 @ rest st'" by blast
    ultimately have "rest (p, s, g) = (u1 @ u2) @ rest st'" "with_digit (u1 @ u2)"
      by (auto simp: with_digit_def)
    then show ?thesis by blast
  next
    case False
    with 3(3) have h2: "has_digit r2" by simp
    from run_suffix [OF x] obtain u1 where "rest (p, s, g) = u1 @ rest x" by blast
    moreover from 3(2) [OF x h2 st'] obtain u2 where "rest x = u2 @ rest st'" "with_digit u2"
      by blast
    ultimately have "rest (p, s, g) = (u1 @ u2) @ rest st'" "with_digit (u1 @ u2)"
      by (auto simp: with_digit_def)
    then show ?thesis by blast
  qed
next
  case (4 m n r p s g)
  from 4(3) have m: "0 < m" and hr: "has_digit r" by auto
  from 4(4) m obtain x where
    it: "n \<noteq> Some 0" "x \<in> set (run r (p, s, g))" "length (rest x) < length s"
      "st' \<in> set (run (Rep (m - 1) (dec_max n) r) x)"
    by (auto split: if_splits)
  from 4(1) [OF it(1) hr it(2)] obtain u1 where "rest (p, s, g) = u1 @ rest x" "with_digit u1"
    by blast
  moreover from run_suffix [OF it(4)] obtain u2 where "rest x = u2 @ rest st'" by blast
  ultimately have "rest (p, s, g) = (u1 @ u2) @ rest st'" "with_digit (u1 @ u2)"
    by (auto simp: with_digit_def)
  then show ?case by blast
next
  case (5 r p s g)
  from 5(3) obtain x where x: "x \<in> set (run r (p, s, g))" and "rest st' = rest x"
    by (auto simp: rest_def)
  from 5(2) have "has_digit r" by simp
  from 5(1) [OF this x] \<open>rest st' = rest x\<close> show ?case by simp
qed simp_all

lemma run_groups:
  "digit_groups r \<Longrightarrow> list_all with_digit (snd (snd st)) \<Longrightarrow> st' \<in> set (run r st)
   \<Longrightarrow> list_all with_digit (snd (snd st'))"
proof (induction r st arbitrary: st' rule: run.induct)
  case (1 c p s g)
  then show ?case by (cases s) (auto split: if_splits)
next
  case (2 f p s g)
  then show ?case by (cases s) (auto split: if_splits)
next
  case (3 r1 r2 p s g)
  from 3(5) obtain x where x: "x \<in> set (run r1 (p, s, g))" and st': "st' \<in> set (run r2 x)"
    by auto
  from 3(3) have d1: "digit_groups r1" and d2: "digit_groups r2" by auto
  from 3(1) [OF d1 3(4) x] have "list_all with_digit (snd (snd x))" .
  from 3(2) [OF x d2 this st'] show ?case .
next
  case (4 m n r p s g)
  from 4(3) have d: "digit_groups r" by simp
  from 4(5) consider
    (iter) x where "n \<noteq> Some 0" "x \<in> set (run r (p, s, g))" "length (rest x) < length s"
      "st' \<in> set (run (Rep (m - 1) (dec_max n) r) x)"
    | (stop) "st' = (p, s, g)"
    by (auto split: if_splits)
  then show ?case
  proof cases
    case iter
    from 4(1) [OF iter(1) d 4(4) iter(2)] have "list_all with_digit (snd (snd x))" .
    moreover have "digit_groups (Rep (m - 1) (dec_max n) r)" using d by simp
    ultimately show ?thesis using 4(2) [OF iter(1,2,3) _ _ iter(4)] by blast
  next
    case stop
    then show ?thesis using 4(4) by simp
  qed
next
  case (5 r p s g)
  from 5(2) have h: "has_digit r" and d: "digit_groups r" by auto
  from 5(4) obtain x where x: "x \<in> set (run r (p, s, g))"
    and st': "snd (snd st') = snd (snd x) @ [take (length s - length (rest x)) s]"
    by auto
  from 5(1) [OF d 5(3) x] have g: "list_all with_digit (snd (snd x))" .
  from run_digit [OF h x] obtain u where u: "s = u @ rest x" "with_digit u"
    by (auto simp: rest_def)
  have "take (length s - length (rest x)) s = u"
    by (subst (1 2) u(1)) simp
  then show ?case using g u(2) by (simp add: st')
next
  case (6 f p s g)
  then show ?case by (auto split: option.splits if_splits)
next
  case (7 f p s g)
  then show ?case by (auto split: list.splits if_splits)
next
  case (8 p s g)
  then show ?case by (auto split: if_splits)
qed

lemma match_at_in_run: "match_at r p s = Some st \<Longrightarrow> st \<in> set (run r (p, s, []))"
  by (auto simp: match_at_def split: list.splits)

lemma scan_tokens:
  assumes "has_digit r" and "digit_groups r"
  shows "(tok, gs) \<in> set (scan r p s) \<Longrightarrow> (tok = [] \<or> with_digit tok) \<and> list_all with_digit gs"
proof (induction "length s" arbitrary: p s rule: less_induct)
  case less
  show ?case
  proof (cases "match_at r p s")
    case None
    show ?thesis
    proof (cases s)
      case Nil
      with None less.prems show ?thesis by (subst (asm) scan.simps) simp
    next
      case (Cons c cs)
      with None less.prems have "(tok, gs) \<in> set (scan r (Some c) cs)"
        by (subst (asm) scan.simps) simp
      then show ?thesis using less.hyps [of cs "Some c"] Cons by simp
    qed
  next
    case (Some st)
    from match_at_in_run [OF Some] have st: "st \<in> set (run r (p, s, []))" .
    from run_groups [OF assms(2) _ st] have g: "list_all with_digit (snd (snd st))" by simp
    from run_digit [OF assms(1) st] obtain u where u: "s = u @ rest st" "with_digit u"
      by (auto simp: rest_def)
    have tk: "take (length s - length (rest st)) s = u"
      by (subst (1 2) u(1)) simp
    have u_ne: "u \<noteq> []" using u(2) by (auto simp: with_digit_def)
    have "length s = length u + length (rest st)"
      using u(1) by (metis length_append)
    with u_ne have shorter: "length (rest st) < length s" by simp
    from less.prems Some shorter
    have "(tok, gs) = (u, snd (snd st)) \<or> (tok, gs) \<in> set (scan r (fst st) (rest st))"
      by (subst (asm) scan.simps) (auto simp: tk)
    then show ?thesis
    proof
      assume "(tok, gs) = (u, snd (snd st))"
      then show ?thesis using u(2) g by simp
    next
      assume "(tok, gs) \<in> set (scan r (fst st) (rest st))"
      then show ?thesis using less.hyps [OF shorter] by blast
    qed
  qed
qed

lemma has_digit_patterns: "has_digit NUM_RE" "digit_groups NUM_RE" "has_digit SCORE_RE"
  "digit_groups SCORE_RE"
  by (simp_all add: NUM_RE_def SCORE_RE_def)

lemma numbers_with_digit:
  assumes "t \<in> set (numbers_from_text v)"
  shows "t = [] \<or> with_digit t"
proof -
  from assms obtain gs where "(t, gs) \<in> set (scan NUM_RE None (or_empty v))"
    by (auto simp: numbers_from_text_def)
  from scan_tokens [OF has_digit_patterns(1,2) this] show ?thesis by simp
qed

lemma score_parts_elem:
  assumes "t \<in> set (score_parts ps)"
  obtains pr where "pr \<in> set ps" and "t = fst pr \<or> t = snd pr"
  using assms by (fastforce simp: score_parts_def)

lemma score_parts_with_digit:
  assumes "t \<in> set (score_parts (scorelines_from_text v))"
  shows "t = [] \<or> with_digit t"
proof -
  from assms obtain pr where "pr \<in> set (scorelines_from_text v)" and "t = fst pr \<or> t = snd pr"
    by (rule score_parts_elem)
  then obtain tok gs where m: "(tok, gs) \<in> set (scan SCORE_RE None (or_empty v))"
    and t: "t = fst (pair_of_groups gs) \<or> t = snd (pair_of_groups gs)"
    by (auto simp: scorelines_from_text_def)
  from scan_tokens [OF has_digit_patterns(3,4) m] have "list_all with_digit gs" by simp
  then have "fst (pair_of_groups gs) = [] \<or> with_digit (fst (pair_of_groups gs))"
    and "snd (pair_of_groups gs) = [] \<or> with_digit (snd (pair_of_groups gs))"
    by (auto simp: pair_of_groups_def split: list.splits)
  with t show ?thesis by auto
qed

lemma tokens_with_digit: "t \<in> set (tokens_of v) \<Longrightarrow> t = [] \<or> with_digit t"
  using numbers_with_digit [of t "Some v"] score_parts_with_digit [of t "Some v"]
  by (auto simp: tokens_of_def)

section \<open>A string with a digit does not read as a NaN\<close>

lemma space_not_digit: "is_space c \<Longrightarrow> \<not> is_digit c"
  by (auto simp: is_space_def is_digit_def ascii_digit_def in_ranges_def uni_space_ranges_def
      uni_decimal_ranges_def split: if_splits)

lemma decimal_value_less: "decimal_value c = Some d \<Longrightarrow> d < 10"
  by (auto simp: decimal_value_def ascii_digit_def split: if_splits option.splits)

lemma transform_keeps_digits:
  assumes "63 \<notin> set (transform_decimal_and_space s)" and "c \<in> set s" and "is_digit c"
  shows "\<exists>d\<in>set (transform_decimal_and_space s). ascii_digit d"
  using assms
proof (induction s)
  case Nil
  then show ?case by simp
next
  case (Cons x xs)
  show ?case
  proof (cases "x < 127")
    case True
    show ?thesis
    proof (cases "c = x")
      case eq: True
      then have "ascii_digit x" using Cons.prems(3) True by (simp add: is_digit_def)
      then show ?thesis using True by simp
    next
      case False
      then have "c \<in> set xs" using Cons.prems(2) by simp
      moreover have "63 \<notin> set (transform_decimal_and_space xs)"
        using Cons.prems(1) True by simp
      ultimately show ?thesis using Cons.IH Cons.prems(3) True by auto
    qed
  next
    case big: False
    show ?thesis
    proof (cases "is_space x")
      case True
      then have "c \<noteq> x" using Cons.prems(3) space_not_digit by blast
      then have "c \<in> set xs" using Cons.prems(2) by simp
      moreover have "63 \<notin> set (transform_decimal_and_space xs)"
        using Cons.prems(1) big True by simp
      ultimately show ?thesis using Cons.IH Cons.prems(3) big True by auto
    next
      case False
      from Cons.prems(1) big False obtain d where d: "decimal_value x = Some d"
        by (cases "decimal_value x") auto
      then have "ascii_digit (48 + d)"
        using decimal_value_less [OF d] by (simp add: ascii_digit_def)
      then show ?thesis using big False d by auto
    qed
  qed
qed

lemma to_ascii_keeps_digits:
  assumes "\<forall>d\<in>set (to_ascii s). \<not> ascii_digit d \<and> d \<noteq> 63"
  shows "\<not> with_digit s"
proof
  assume "with_digit s"
  then obtain c where c: "c \<in> set s" "is_digit c"
    by (auto simp: with_digit_def list_ex_iff)
  show False
  proof (cases "list_all (\<lambda>c. c < 128) s")
    case True
    then have "c < 128" using c(1) by (simp add: list_all_iff)
    then have "ascii_digit c" using c(2) by (simp add: is_digit_def)
    moreover have "to_ascii s = s" using True by (simp add: to_ascii_def)
    ultimately show False using assms c(1) by auto
  next
    case False
    then have t: "to_ascii s = transform_decimal_and_space s" by (simp add: to_ascii_def)
    then have "63 \<notin> set (transform_decimal_and_space s)" using assms by auto
    from transform_keeps_digits [OF this c] show False using assms t by auto
  qed
qed

lemma drop_underscores_set:
  "drop_underscores prev a = Some u \<Longrightarrow> set a \<subseteq> set u \<union> {95}"
proof (induction a arbitrary: prev u)
  case Nil
  then show ?case by simp
next
  case (Cons x xs)
  then show ?case by (fastforce split: if_splits)
qed

lemma without_underscores_set: "without_underscores a = Some u \<Longrightarrow> set a \<subseteq> set u \<union> {95}"
  using drop_underscores_set [of 0 a u] by (auto simp: without_underscores_def split: if_splits)

lemma set_dropWhile_cover: "set xs \<subseteq> set (dropWhile P xs) \<union> {c. P c}"
proof -
  have "set xs = set (takeWhile P xs) \<union> set (dropWhile P xs)"
    by (metis set_append takeWhile_dropWhile_id)
  then show ?thesis using set_takeWhileD by fastforce
qed

lemma strip_space_set: "set u \<subseteq> set (strip_space u) \<union> {c. c_space c}"
proof -
  let ?d = "dropWhile c_space u"
  have "set u \<subseteq> set ?d \<union> {c. c_space c}" by (rule set_dropWhile_cover)
  moreover have "set (rev ?d) \<subseteq> set (dropWhile c_space (rev ?d)) \<union> {c. c_space c}"
    by (rule set_dropWhile_cover)
  ultimately show ?thesis by (auto simp: strip_space_def)
qed

lemma split_sign_set: "split_sign x = (sg, b) \<Longrightarrow> set x \<subseteq> set b \<union> {45, 43}"
  by (cases x) (auto simp: split_sign_def split: if_splits)

lemma parse_decimal_not_nan: "parse_decimal sg b \<noteq> Some NaN"
  by (auto simp: parse_decimal_def parse_exponent_def decimal_to_double_def nearest_double_def
      Let_def split: option.splits if_splits list.splits prod.splits)

lemma nan_letters:
  assumes "map to_lower b = ustr ''nan''" and "c \<in> set b"
  shows "c \<in> {110, 97, 78, 65}"
proof -
  from assms(1) obtain x y z where b: "b = [x, y, z]"
    and l: "to_lower x = 110" "to_lower y = 97" "to_lower z = 110"
    by (auto simp: ustr_def)
  have "\<And>v w. to_lower v = w \<Longrightarrow> w \<in> {110, 97} \<Longrightarrow> v \<in> {110, 97, 78, 65}"
    by (auto simp: to_lower_def split: if_splits)
  with b l assms(2) show ?thesis by auto
qed

lemma parse_nan_letters:
  assumes "parse_inf_or_nan sg b = Some NaN" and "c \<in> set b"
  shows "c \<in> {110, 97, 78, 65}"
  using assms nan_letters [of b c]
  by (auto simp: parse_inf_or_nan_def Let_def split: if_splits)

lemma py_float_nan_no_digit:
  assumes "py_float s = Some NaN"
  shows "\<not> with_digit s"
proof -
  from assms obtain u where u: "without_underscores (to_ascii s) = Some u"
    by (auto simp: py_float_def split: option.splits)
  obtain sg b where sb: "split_sign (strip_space u) = (sg, b)"
    by (cases "split_sign (strip_space u)")
  from assms u sb have "parse_inf_or_nan sg b = Some NaN"
    using parse_decimal_not_nan [of sg b] by (auto simp: py_float_def split: option.splits)
  then have b: "\<And>c. c \<in> set b \<Longrightarrow> c \<in> {110, 97, 78, 65}"
    by (rule parse_nan_letters)
  have "\<not> ascii_digit d \<and> d \<noteq> 63" if "d \<in> set (to_ascii s)" for d
  proof -
    from that without_underscores_set [OF u] have "d \<in> set u \<or> d = 95" by auto
    with strip_space_set [of u] have "d \<in> set (strip_space u) \<or> c_space d \<or> d = 95" by auto
    with split_sign_set [OF sb] have "d \<in> set b \<or> d = 45 \<or> d = 43 \<or> c_space d \<or> d = 95"
      by auto
    with b [of d] show ?thesis by (auto simp: ascii_digit_def c_space_def)
  qed
  then show ?thesis by (intro to_ascii_keeps_digits) blast
qed

section \<open>The character before a match\<close>

lemma list_all2_concat:
  "list_all2 (list_all2 R) xss yss \<Longrightarrow> list_all2 R (concat xss) (concat yss)"
  by (induction xss yss rule: list_all2_induct) (auto intro: list_all2_appendI)

lemma list_all2_refl_same_but: "list_all2 (same_but p p' s) xs xs"
  by (rule list_all2_refl) (simp add: same_but_def)

lemma run_agree:
  "behind_agree r (fst st) p'
   \<Longrightarrow> list_all2 (same_but (fst st) p' (rest st)) (run r st) (run r (p', rest st, snd (snd st)))"
proof (induction r st arbitrary: p' rule: run.induct)
  case (1 c p s g)
  show ?case by (cases s) (auto simp: rest_def same_but_def)
next
  case (2 f p s g)
  show ?case by (cases s) (auto simp: rest_def same_but_def)
next
  case (3 r1 r2 p s g)
  from 3(3) have a1: "behind_agree r1 p p'" and a2: "behind_agree r2 p p'" by auto
  from 3(1) [of p'] a1
  have ih1: "list_all2 (same_but p p' s) (run r1 (p, s, g)) (run r1 (p', s, g))"
    by (simp add: rest_def)
  have "list_all2 (list_all2 (same_but p p' s))
          (map (run r2) (run r1 (p, s, g))) (map (run r2) (run r1 (p', s, g)))"
    unfolding list_all2_map1 list_all2_map2
  proof (rule list.rel_mono_strong [OF ih1])
    fix x x'
    assume x: "x \<in> set (run r1 (p, s, g))" and rel: "same_but p p' s x x'"
    show "list_all2 (same_but p p' s) (run r2 x) (run r2 x')"
    proof (cases "x = x'")
      case True
      then show ?thesis by (simp add: list_all2_refl_same_but)
    next
      case False
      with rel obtain g' where xx: "x = (p, s, g')" "x' = (p', s, g')"
        by (auto simp: same_but_def)
      from 3(2) [OF x, of p'] a2 show ?thesis by (simp add: xx rest_def)
    qed
  qed
  then show ?case by (simp add: rest_def list_all2_concat)
next
  case (4 m n r p s g)
  from 4(3) have a: "behind_agree r p p'" by simp
  let ?F = "\<lambda>st'. if length (rest st') < length s
                   then run (Rep (m - 1) (dec_max n) r) st' else []"
  have stop: "list_all2 (same_but p p' s) (if m = 0 then [(p, s, g)] else [])
      (if m = 0 then [(p', s, g)] else [])"
    by (simp add: same_but_def)
  show ?case
  proof (cases "n = Some 0")
    case True
    then show ?thesis using stop by (simp add: rest_def)
  next
    case False
    from 4(1) [OF False, of p'] a
    have ih1: "list_all2 (same_but p p' s) (run r (p, s, g)) (run r (p', s, g))"
      by (simp add: rest_def)
    have "list_all2 (list_all2 (same_but p p' s))
            (map ?F (run r (p, s, g))) (map ?F (run r (p', s, g)))"
      unfolding list_all2_map1 list_all2_map2
    proof (rule list_all2_mono [OF ih1])
      fix x x'
      assume rel: "same_but p p' s x x'"
      show "list_all2 (same_but p p' s) (?F x) (?F x')"
      proof (cases "x = x'")
        case True
        then show ?thesis by (simp add: list_all2_refl_same_but)
      next
        case False
        with rel obtain g' where "x = (p, s, g')" "x' = (p', s, g')"
          by (auto simp: same_but_def)
        then show ?thesis by (simp add: rest_def)
      qed
    qed
    then have "list_all2 (same_but p p' s)
        (concat (map ?F (run r (p, s, g)))) (concat (map ?F (run r (p', s, g))))"
      by (rule list_all2_concat)
    from list_all2_appendI [OF this stop] False show ?thesis
      by (simp add: rest_def)
  qed
next
  case (5 r p s g)
  from 5(2) have a: "behind_agree r p p'" by simp
  let ?G = "\<lambda>st'. (fst st', rest st', snd (snd st') @ [take (length s - length (rest st')) s])"
  from 5(1) [of p'] a
  have ih: "list_all2 (same_but p p' s) (run r (p, s, g)) (run r (p', s, g))"
    by (simp add: rest_def)
  have "list_all2 (same_but p p' s) (map ?G (run r (p, s, g))) (map ?G (run r (p', s, g)))"
    unfolding list_all2_map1 list_all2_map2
    by (rule list_all2_mono [OF ih]) (auto simp: same_but_def rest_def)
  then show ?case by (simp add: rest_def)
next
  case (6 f p s g)
  then show ?case
    by (cases p; cases p') (auto simp: rest_def same_but_def)
next
  case (7 f p s g)
  show ?case by (cases s) (auto simp: rest_def same_but_def)
next
  case (8 p s g)
  then show ?case by (auto simp: rest_def same_but_def)
qed

lemma run_agree_eq:
  assumes "behind_agree r p p'" and "has_digit r"
  shows "run r (p, s, g) = run r (p', s, g)"
proof -
  from run_agree [of r "(p, s, g)" p'] assms(1)
  have rel: "list_all2 (same_but p p' s) (run r (p, s, g)) (run r (p', s, g))"
    by (simp add: rest_def)
  have "list_all2 (=) (run r (p, s, g)) (run r (p', s, g))"
  proof (rule list.rel_mono_strong [OF rel])
    fix x x'
    assume x: "x \<in> set (run r (p, s, g))" and r: "same_but p p' s x x'"
    from run_digit [OF assms(2) x] obtain u where u: "s = u @ rest x" "with_digit u"
      by (auto simp: rest_def)
    from u(2) have "u \<noteq> []" by (auto simp: with_digit_def)
    moreover have "length s = length u + length (rest x)"
      using u(1) by (metis length_append)
    ultimately have "rest x \<noteq> s" by auto
    with r show "x = x'" by (auto simp: same_but_def rest_def)
  qed
  then show ?thesis by (simp add: list_all2_eq)
qed

lemma scan_agree:
  assumes "behind_agree r p p'" and "has_digit r"
  shows "scan r p s = scan r p' s"
proof -
  have "match_at r p s = match_at r p' s"
    by (simp add: match_at_def run_agree_eq [OF assms])
  then show ?thesis
    by (subst (1 2) scan.simps) simp
qed
section \<open>Short texts never raise\<close>

subsection \<open>The binary logarithm is exact\<close>

lemma floor_log2_ge2:
  "floor_log2 a b =
     (let d = int (bit_length a) - int (bit_length b) in if ge2 a b d then d else d - 1)"
  by (simp add: floor_log2_def ge2_def)

lemma ge2_mono:
  assumes "ge2 a b j" and "j' \<le> j"
  shows "ge2 a b j'"
proof -
  consider (pp) "0 \<le> j'" | (np) "j' < 0" "0 \<le> j" | (nn) "j < 0"
    using assms(2) by linarith
  then show ?thesis
  proof cases
    case pp
    then have "nat j' \<le> nat j" and "0 \<le> j" using assms(2) by auto
    then have "(2::nat) ^ nat j' \<le> 2 ^ nat j"
      by (intro power_increasing) auto
    then have "b * 2 ^ nat j' \<le> b * 2 ^ nat j"
      by (rule mult_le_mono2)
    moreover have "b * 2 ^ nat j \<le> a"
      using assms(1) \<open>0 \<le> j\<close> by (simp add: ge2_def)
    ultimately have "b * 2 ^ nat j' \<le> a" by linarith
    with pp show ?thesis by (simp add: ge2_def)
  next
    case np
    have "b \<le> b * 2 ^ nat j" by simp
    also have "\<dots> \<le> a" using assms(1) np by (simp add: ge2_def)
    also have "\<dots> \<le> a * 2 ^ nat (- j')" by simp
    finally show ?thesis using np by (simp add: ge2_def)
  next
    case nn
    then have "nat (- j) \<le> nat (- j')" and "j' < 0" using assms(2) by auto
    then have "(2::nat) ^ nat (- j) \<le> 2 ^ nat (- j')"
      by (intro power_increasing) auto
    then have "a * 2 ^ nat (- j) \<le> a * 2 ^ nat (- j')"
      by (rule mult_le_mono2)
    moreover have "b \<le> a * 2 ^ nat (- j)"
      using assms(1) nn by (simp add: ge2_def)
    ultimately have "b \<le> a * 2 ^ nat (- j')" by linarith
    with \<open>j' < 0\<close> show ?thesis by (simp add: ge2_def)
  qed
qed

lemma ge2_bit_length:
  assumes "0 < a" and "0 < b"
  shows "ge2 a b (int (bit_length a) - int (bit_length b) - 1)"
    and "\<not> ge2 a b (int (bit_length a) - int (bit_length b) + 1)"
proof -
  let ?la = "bit_length a" and ?lb = "bit_length b"
  from bit_length_bounds [OF assms(1)] have a: "2 ^ (?la - 1) \<le> a" "a < 2 ^ ?la" by auto
  from bit_length_bounds [OF assms(2)] have b: "2 ^ (?lb - 1) \<le> b" "b < 2 ^ ?lb" by auto
  have la: "0 < ?la" using assms(1) by (simp add: bit_length.simps [of a])
  have lb: "0 < ?lb" using assms(2) by (simp add: bit_length.simps [of b])
  show "ge2 a b (int ?la - int ?lb - 1)"
  proof (cases "0 \<le> int ?la - int ?lb - 1")
    case True
    then have n: "nat (int ?la - int ?lb - 1) = ?la - 1 - ?lb" by simp
    have le: "?lb \<le> ?la - 1" using True by simp
    have "b * 2 ^ (?la - 1 - ?lb) \<le> 2 ^ ?lb * 2 ^ (?la - 1 - ?lb)"
      using b(2) by simp
    also have "\<dots> = 2 ^ (?la - 1)" using le by (simp add: power_add [symmetric])
    also have "\<dots> \<le> a" by (rule a(1))
    finally show ?thesis unfolding ge2_def n [symmetric] using True by simp
  next
    case False
    then have n: "nat (- (int ?la - int ?lb - 1)) = ?lb - (?la - 1)" using la by simp
    have le: "?la - 1 \<le> ?lb" using False by simp
    have "b \<le> 2 ^ ?lb" using b(2) by simp
    also have "\<dots> = 2 ^ (?la - 1) * 2 ^ (?lb - (?la - 1))"
      using le by (simp add: power_add [symmetric])
    also have "\<dots> \<le> a * 2 ^ (?lb - (?la - 1))" using a(1) by simp
    finally show ?thesis unfolding ge2_def n [symmetric] using False by simp
  qed
  show "\<not> ge2 a b (int ?la - int ?lb + 1)"
  proof (cases "0 \<le> int ?la - int ?lb + 1")
    case True
    then have n: "nat (int ?la - int ?lb + 1) = ?la - (?lb - 1)" using lb by simp
    have le: "?lb - 1 \<le> ?la" using True by simp
    have "a < 2 ^ ?la" by (rule a(2))
    also have "\<dots> = 2 ^ (?lb - 1) * 2 ^ (?la - (?lb - 1))"
      using le by (simp add: power_add [symmetric])
    also have "\<dots> \<le> b * 2 ^ (?la - (?lb - 1))" using b(1) by simp
    finally show ?thesis unfolding ge2_def n [symmetric] using True by simp
  next
    case False
    then have n: "nat (- (int ?la - int ?lb + 1)) = ?lb - 1 - ?la" by simp
    have le: "?la \<le> ?lb - 1" using False by simp
    have "a * 2 ^ (?lb - 1 - ?la) < 2 ^ ?la * 2 ^ (?lb - 1 - ?la)"
      using a(2) by simp
    also have "\<dots> = 2 ^ (?lb - 1)" using le by (simp add: power_add [symmetric])
    also have "\<dots> \<le> b" by (rule b(1))
    finally show ?thesis unfolding ge2_def n [symmetric] using False by simp
  qed
qed

lemma floor_log2_bounds:
  assumes "0 < a" and "0 < b"
  shows "ge2 a b (floor_log2 a b)" and "\<not> ge2 a b (floor_log2 a b + 1)"
  using ge2_bit_length [OF assms]
  by (auto simp: floor_log2_ge2 Let_def)

subsection \<open>Rounding stays below the overflow threshold\<close>

lemma rhe_div_le:
  assumes "0 < b" and "2 * a < (2 * k + 1) * b"
  shows "rhe_div a b \<le> k"
proof -
  define q r where "q = a div b" and "r = a mod b"
  have a: "a = q * b + r" and r: "r < b"
    using assms(1) by (simp_all add: q_def r_def)
  have qk: "q \<le> k"
  proof (rule ccontr)
    assume "\<not> q \<le> k"
    then have "k + 1 \<le> q" by simp
    then have "(k + 1) * b \<le> q * b" by (rule mult_le_mono1)
    then have "2 * ((k + 1) * b) \<le> 2 * a" using a by simp
    moreover have "(2 * k + 1) * b \<le> 2 * ((k + 1) * b)" by (simp add: algebra_simps)
    ultimately show False using assms(2) by simp
  qed
  show ?thesis
  proof (cases "q = k")
    case True
    have "2 * a = 2 * k * b + 2 * r" using a True by (simp add: algebra_simps)
    moreover have "(2 * k + 1) * b = 2 * k * b + b" by (simp add: algebra_simps)
    ultimately have "2 * r < b" using assms(2) by simp
    then show ?thesis using True
      by (simp add: rhe_div_def Let_def q_def [symmetric] r_def [symmetric])
  next
    case False
    with qk have "q + 1 \<le> k" by simp
    then show ?thesis
      by (simp add: rhe_div_def Let_def q_def [symmetric] r_def [symmetric])
  qed
qed

lemma rhe_div_le_Suc: "rhe_div a b \<le> a + 1"
proof -
  have "a div b \<le> a" by (rule div_le_dividend)
  then have "a div b \<le> Suc a" by (rule le_SucI)
  then show ?thesis by (auto simp: rhe_div_def Let_def)
qed

lemma rhe_div_one: "rhe_div a (Suc 0) = a"
  by (simp add: rhe_div_def)

lemma rhe_scaled_le:
  assumes "0 < a" and "0 < b" and "floor_log2 a b - 52 \<le> e"
  shows "rhe_scaled a b e \<le> 2 ^ 53"
proof -
  have n: "\<not> ge2 a b (e + 53)"
  proof
    assume "ge2 a b (e + 53)"
    then have "ge2 a b (floor_log2 a b + 1)"
      by (rule ge2_mono) (use assms(3) in simp)
    then show False using floor_log2_bounds(2) [OF assms(1,2)] by simp
  qed
  show ?thesis
  proof (cases "0 \<le> e")
    case True
    then have "nat (e + 53) = nat e + 53" by simp
    with n True have "a < b * 2 ^ nat e * 2 ^ 53"
      by (simp add: ge2_def power_add mult.assoc)
    then have "2 * a < (2 * 2 ^ 53 + 1) * (b * 2 ^ nat e)"
      by (simp add: algebra_simps)
    then have "rhe_div a (b * 2 ^ nat e) \<le> 2 ^ 53"
      by (intro rhe_div_le) (use assms(2) in simp_all)
    then show ?thesis using True by (simp add: rhe_scaled_def)
  next
    case False
    have lt: "a * 2 ^ nat (- e) < b * 2 ^ 53"
    proof (cases "0 \<le> e + 53")
      case True
      then have s: "nat (e + 53) + nat (- e) = 53" using False by simp
      from n True have "a < b * 2 ^ nat (e + 53)" by (simp add: ge2_def)
      then have "a * 2 ^ nat (- e) < b * 2 ^ nat (e + 53) * 2 ^ nat (- e)"
        by simp
      also have "\<dots> = b * 2 ^ (nat (e + 53) + nat (- e))"
        by (simp only: power_add mult.assoc)
      finally show ?thesis by (simp only: s)
    next
      case False
      then have s: "nat (- e) = nat (- (e + 53)) + 53" by simp
      from n False have "a * 2 ^ nat (- (e + 53)) < b" by (simp add: ge2_def)
      then have "a * 2 ^ nat (- (e + 53)) * 2 ^ 53 < b * 2 ^ 53" by simp
      then show ?thesis by (simp only: s power_add mult.assoc)
    qed
    then have "2 * (a * 2 ^ nat (- e)) < (2 * 2 ^ 53 + 1) * b"
      by (simp add: algebra_simps)
    then have "rhe_div (a * 2 ^ nat (- e)) b \<le> 2 ^ 53"
      by (intro rhe_div_le) (use assms(2) in simp_all)
    then show ?thesis using False by (simp add: rhe_scaled_def)
  qed
qed

lemma double_below_threshold:
  fixes m e :: nat
  assumes "m \<le> 2 ^ 53" and "m * 2 ^ e < 2 ^ 1024"
  shows "m * 2 ^ e < 2 ^ 1024 - 2 ^ 970"
proof (cases "e \<le> 970")
  case True
  then have "(2::nat) ^ e \<le> 2 ^ 970" by (intro power_increasing) auto
  with assms(1) have "m * 2 ^ e \<le> 2 ^ 53 * 2 ^ 970" by (rule mult_le_mono)
  also have "\<dots> < (2::nat) ^ 1024 - 2 ^ 970" by simp
  finally show ?thesis .
next
  case False
  then have e: "e = (e - 971) + 971" by simp
  have "m * 2 ^ (e - 971) * 2 ^ 971 = m * 2 ^ e"
    by (subst (2) e) (simp only: power_add mult.assoc)
  also have "\<dots> < 2 ^ 53 * 2 ^ 971" using assms(2) by simp
  finally have "m * 2 ^ (e - 971) < 2 ^ 53" by simp
  then have "m * 2 ^ (e - 971) \<le> 2 ^ 53 - 1" by simp
  then have "m * 2 ^ (e - 971) * 2 ^ 971 \<le> (2 ^ 53 - 1) * 2 ^ 971"
    by (rule mult_le_mono1)
  also have "\<dots> < (2::nat) ^ 1024 - 2 ^ 970" by simp
  finally have lt: "m * 2 ^ (e - 971) * 2 ^ 971 < 2 ^ 1024 - 2 ^ 970" .
  have eq: "m * 2 ^ (e - 971) * 2 ^ 971 = m * 2 ^ e"
    by (subst (2) e) (simp only: power_add mult.assoc)
  show ?thesis using lt unfolding eq .
qed

lemma nearest_double_valid:
  assumes "0 < b" and "a < b * (2 ^ 1024 - 2 ^ 970)"
  shows "valid_double (nearest_double s a b)"
proof (cases "a = 0")
  case True
  then show ?thesis by (simp add: nearest_double_def valid_double_def)
next
  case False
  then have a: "0 < a" by simp
  define e where "e = max (floor_log2 a b - 52) (- 1074)"
  define m where "m = rhe_scaled a b e"
  have m: "m \<le> 2 ^ 53"
    unfolding m_def by (rule rhe_scaled_le [OF a assms(1)]) (simp add: e_def)
  have fin: "m * 2 ^ nat e < 2 ^ 1024" if e0: "0 \<le> e"
  proof -
    have e1: "e = floor_log2 a b - 52" using e0 by (simp add: e_def max_def split: if_splits)
    have "e \<le> 971"
    proof (rule ccontr)
      assume "\<not> e \<le> 971"
      then have "1024 \<le> floor_log2 a b" using e1 by simp
      with floor_log2_bounds(1) [OF a assms(1)] have "ge2 a b 1024"
        by (rule ge2_mono)
      then have "b * 2 ^ 1024 \<le> a" by (simp add: ge2_def)
      moreover have "b * (2 ^ 1024 - 2 ^ 970) \<le> b * 2 ^ 1024" by (intro mult_le_mono2) simp
      ultimately show False using assms(2) by simp
    qed
    show ?thesis
    proof (cases "e = 971")
      case True
      have "2 * a < (2 * (2 ^ 53 - 1) + 1) * (b * 2 ^ 971)"
      proof -
        have "(2 * (2 ^ 53 - 1) + 1) * (b * 2 ^ 971) = 2 * (b * (2 ^ 1024 - 2 ^ 970))"
          by simp
        then show ?thesis using assms(2) by simp
      qed
      then have "rhe_div a (b * 2 ^ 971) \<le> 2 ^ 53 - 1"
        by (intro rhe_div_le) (use assms(1) in simp_all)
      then have "m \<le> 2 ^ 53 - 1" using True by (simp add: m_def rhe_scaled_def)
      then have "m * 2 ^ 971 \<le> (2 ^ 53 - 1) * 2 ^ 971" by (rule mult_le_mono1)
      also have "\<dots> < (2::nat) ^ 1024" by simp
      finally show ?thesis using True by simp
    next
      case False
      with \<open>e \<le> 971\<close> e0 have "nat e \<le> 970" by simp
      then have "(2::nat) ^ nat e \<le> 2 ^ 970" by (intro power_increasing) auto
      with m have "m * 2 ^ nat e \<le> 2 ^ 53 * 2 ^ 970" by (rule mult_le_mono)
      also have "\<dots> < (2::nat) ^ 1024" by simp
      finally show ?thesis .
    qed
  qed
  have "nearest_double s a b = Finite s m e"
    using False fin by (auto simp: nearest_double_def Let_def e_def [symmetric] m_def [symmetric])
  moreover have "e < 0 \<or> m * 2 ^ nat e < 2 ^ 1024"
    using fin by (cases "0 \<le> e") simp_all
  ultimately show ?thesis using m by (simp add: valid_double_def)
qed

lemma decimal_valid:
  assumes "n < 10 ^ k * (2 ^ 1024 - 2 ^ 970)"
  shows "valid_double (decimal_to_double s n (- int k))"
proof (cases "k = 0")
  case True
  with assms have "n * 1 < 1 * (2 ^ 1024 - 2 ^ 970)" by simp
  then have "valid_double (nearest_double s (n * 1) 1)"
    by (intro nearest_double_valid) simp_all
  then show ?thesis using True by (simp add: decimal_to_double_def)
next
  case False
  have "valid_double (nearest_double s n (10 ^ k))"
    by (intro nearest_double_valid) (use assms in simp_all)
  then show ?thesis using False by (simp add: decimal_to_double_def)
qed

lemma round_digits_valid:
  assumes "valid_double f"
  shows "\<exists>g. round_digits f nd = Inr g"
proof -
  from assms obtain s m e where f: "f = Finite s m e" and m: "m \<le> 2 ^ 53"
    and fin: "e < 0 \<or> m * 2 ^ nat e < 2 ^ 1024"
    by (cases f) (auto simp: valid_double_def)
  define k where "k = rhe_scaled (m * 10 ^ nd) 1 (- e)"
  have k: "k < 10 ^ nd * (2 ^ 1024 - 2 ^ 970)"
  proof (cases "e < 0")
    case True
    then have "k = rhe_div (m * 10 ^ nd) (2 ^ nat (- e))"
      by (simp add: k_def rhe_scaled_def)
    then have "k \<le> m * 10 ^ nd + 1" by (simp only: rhe_div_le_Suc)
    also have "\<dots> \<le> 2 ^ 53 * 10 ^ nd + 10 ^ nd"
      using m by (intro add_mono mult_le_mono1) simp_all
    also have "\<dots> = 10 ^ nd * (2 ^ 53 + 1)" by (simp add: algebra_simps)
    also have "\<dots> < 10 ^ nd * (2 ^ 1024 - 2 ^ 970)" by simp
    finally show ?thesis .
  next
    case False
    then have "k = m * 10 ^ nd * 2 ^ nat e"
      by (cases "e = 0") (simp_all add: k_def rhe_scaled_def rhe_div_one)
    moreover have "m * 2 ^ nat e < 2 ^ 1024 - 2 ^ 970"
      using m fin False by (intro double_below_threshold) auto
    then have "10 ^ nd * (m * 2 ^ nat e) < 10 ^ nd * (2 ^ 1024 - 2 ^ 970)"
      by simp
    ultimately show ?thesis by (simp add: mult_ac)
  qed
  have "valid_double (decimal_to_double s k (- int nd))"
    using k by (rule decimal_valid)
  then obtain s' m' e' where "decimal_to_double s k (- int nd) = Finite s' m' e'"
    by (cases "decimal_to_double s k (- int nd)") (simp_all add: valid_double_def)
  then show ?thesis unfolding f round_digits_def k_def by simp
qed

lemma variants_valid:
  assumes "py_float n = Some f" and "valid_double f"
  shows "\<exists>S. variants n = Inr S"
proof -
  from assms(2) obtain s m e where f: "f = Finite s m e"
    by (cases f) (auto simp: valid_double_def)
  from round_digits_valid [OF assms(2)] obtain r1 where r1: "round_digits f 1 = Inr r1"
    by blast
  from round_digits_valid [OF assms(2)] obtain r2 where r2: "round_digits f 2 = Inr r2"
    by blast
  have "\<exists>i. round_to_int f = Inr i" by (simp add: f round_to_int_def Let_def)
  then show ?thesis using r1 r2 assms(1) by (auto simp: variants_def)
qed

subsection \<open>What \<^verbatim>\<open>float\<close> makes of a normalized token\<close>

lemma is_digit_decimal_value:
  assumes "is_digit c"
  shows "\<exists>d. decimal_value c = Some d"
proof (cases "c < 128")
  case True
  with assms show ?thesis by (simp add: is_digit_def decimal_value_def)
next
  case False
  define P where "P = (\<lambda>(lo :: nat, hi). lo \<le> c \<and> c \<le> hi)"
  from assms False have "\<exists>x\<in>set uni_decimal_ranges. P x"
    by (simp add: is_digit_def in_ranges_def list_ex_iff P_def)
  then have "List.find P uni_decimal_ranges \<noteq> None"
    by (simp only: find_None_iff) blast
  then show ?thesis using False
    by (auto simp: decimal_value_def P_def [symmetric] split: option.splits)
qed

lemma transform_plain:
  "list_all num_char s \<Longrightarrow>
   list_all plain_char (transform_decimal_and_space s)
   \<and> length (transform_decimal_and_space s) = length s"
proof (induction s)
  case Nil
  then show ?case by simp
next
  case (Cons c cs)
  then have ih: "list_all plain_char (transform_decimal_and_space cs)"
    "length (transform_decimal_and_space cs) = length cs" by simp_all
  from Cons.prems have c: "num_char c" by simp
  show ?case
  proof (cases "c < 127")
    case True
    with c have "plain_char c"
      by (auto simp: num_char_def plain_char_def is_digit_def)
    with True ih show ?thesis by simp
  next
    case False
    with c have d: "is_digit c" by (auto simp: num_char_def)
    then have ns: "\<not> is_space c" using space_not_digit by blast
    from is_digit_decimal_value [OF d] obtain v where v: "decimal_value c = Some v" by blast
    with decimal_value_less have "v < 10" by blast
    then have "plain_char (48 + v)" by (simp add: plain_char_def ascii_digit_def)
    with False ns v ih show ?thesis by simp
  qed
qed

lemma plain_num: "plain_char c \<Longrightarrow> num_char c"
  by (auto simp: plain_char_def num_char_def is_digit_def ascii_digit_def)

lemma to_ascii_plain:
  assumes "list_all num_char s"
  shows "list_all plain_char (to_ascii s)" and "length (to_ascii s) = length s"
proof -
  have "list_all plain_char s" if "list_all (\<lambda>c. c < 128) s"
    using assms that
    by (induction s) (auto simp: num_char_def plain_char_def is_digit_def)
  then show "list_all plain_char (to_ascii s)"
    using transform_plain [OF assms] by (simp add: to_ascii_def)
  show "length (to_ascii s) = length s"
    using transform_plain [OF assms] by (simp add: to_ascii_def)
qed

lemma strip_space_plain:
  assumes "list_all plain_char a"
  shows "strip_space a = a"
proof -
  have ns: "\<not> c_space c" if "plain_char c" for c
    using that by (auto simp: plain_char_def c_space_def ascii_digit_def)
  have d: "dropWhile c_space xs = xs" if "list_all plain_char xs" for xs
    using that ns by (cases xs) auto
  have "list_all plain_char (rev a)" using assms by (simp add: list_all_iff)
  then show ?thesis using d [OF assms] d [of "rev a"] by (simp add: strip_space_def)
qed

lemma digits_value_less:
  "list_all ascii_digit ds \<Longrightarrow> digits_value ds < 10 ^ length ds"
proof (induction ds rule: rev_induct)
  case Nil
  then show ?case by (simp add: digits_value_def)
next
  case (snoc c ds)
  then have "digits_value ds < 10 ^ length ds" and "c - 48 < 10"
    by (auto simp: ascii_digit_def)
  then have "10 * digits_value ds + (c - 48) < 10 * 10 ^ length ds" by simp
  then show ?case by (simp add: digits_value_snoc)
qed

lemma parse_exponent_plain:
  assumes "list_all plain_char r" and "parse_exponent r = Some ex"
  shows "ex = 0"
proof (cases r)
  case Nil
  with assms(2) show ?thesis by (simp add: parse_exponent_def)
next
  case (Cons c t)
  with assms(1) have "c \<noteq> 101" and "c \<noteq> 69"
    by (auto simp: plain_char_def ascii_digit_def)
  with assms(2) Cons show ?thesis by (simp add: parse_exponent_def)
qed

lemma parse_decimal_plain:
  assumes "list_all plain_char b" and "length b \<le> 308" and "parse_decimal sg b = Some f"
  shows "valid_double f"
proof -
  define ip where "ip = takeWhile ascii_digit b"
  define r1 where "r1 = dropWhile ascii_digit b"
  define fp where
    "fp = (case r1 of [] \<Rightarrow> [] | c # t \<Rightarrow> if c = 46 then takeWhile ascii_digit t else [])"
  define r2 where
    "r2 = (case r1 of [] \<Rightarrow> [] | c # t \<Rightarrow> if c = 46 then dropWhile ascii_digit t else r1)"
  have b: "b = ip @ r1" by (simp add: ip_def r1_def)
  have pr1: "list_all plain_char r1"
    using assms(1) by (subst (asm) b) simp
  have pr2: "list_all plain_char r2"
    using pr1 by (auto simp: r2_def list_all_iff split: list.splits dest: set_dropWhileD)
  have dip: "list_all ascii_digit ip" by (auto simp: ip_def list_all_iff dest: set_takeWhileD)
  have dfp: "list_all ascii_digit fp"
    by (auto simp: fp_def list_all_iff split: list.splits dest: set_takeWhileD)
  have "parse_decimal sg b =
          (if ip = [] \<and> fp = [] then None
           else (case parse_exponent r2 of
                   None \<Rightarrow> None
                 | Some ex \<Rightarrow>
                     Some (decimal_to_double sg (digits_value (ip @ fp))
                            (ex - int (length fp)))))"
    by (simp only: parse_decimal_def Let_def ip_def r1_def fp_def r2_def)
  with assms(3) obtain ex where ex: "parse_exponent r2 = Some ex"
    and f: "f = decimal_to_double sg (digits_value (ip @ fp)) (ex - int (length fp))"
    by (cases "parse_exponent r2") (simp_all split: if_splits)
  from parse_exponent_plain [OF pr2 ex] have ex0: "ex = 0" .
  have "length ip \<le> 308" using assms(2) by (subst (asm) b) simp
  then have "(10::nat) ^ length ip \<le> 10 ^ 308" by (intro power_increasing) auto
  also have "\<dots> \<le> (2::nat) ^ 1024 - 2 ^ 970" by simp
  finally have le: "(10::nat) ^ length ip \<le> 2 ^ 1024 - 2 ^ 970" .
  have "digits_value (ip @ fp) < 10 ^ length (ip @ fp)"
    by (rule digits_value_less) (use dip dfp in simp)
  also have "\<dots> = 10 ^ length fp * 10 ^ length ip" by (simp add: power_add)
  also have "\<dots> \<le> 10 ^ length fp * (2 ^ 1024 - 2 ^ 970)"
    using le by (rule mult_le_mono2)
  finally have "valid_double (decimal_to_double sg (digits_value (ip @ fp)) (- int (length fp)))"
    by (rule decimal_valid)
  then show ?thesis by (simp add: f ex0)
qed

lemma parse_inf_or_nan_plain:
  assumes "list_all plain_char b"
  shows "parse_inf_or_nan sg b = None"
proof (cases b)
  case Nil
  then show ?thesis by (simp add: parse_inf_or_nan_def ustr_def)
next
  case (Cons c t)
  with assms have "plain_char c" by simp
  then have "to_lower c = c" and "c \<noteq> 105" and "c \<noteq> 110"
    by (auto simp: plain_char_def ascii_digit_def to_lower_def)
  then show ?thesis by (auto simp: Cons parse_inf_or_nan_def ustr_def Let_def)
qed

lemma py_float_plain:
  assumes "list_all num_char s" and "length s \<le> 308" and "py_float s = Some f"
  shows "valid_double f"
proof -
  let ?a = "to_ascii s"
  have pa: "list_all plain_char ?a" and la: "length ?a = length s"
    using to_ascii_plain [OF assms(1)] by simp_all
  have "95 \<notin> set ?a" using pa by (auto simp: list_all_iff plain_char_def ascii_digit_def)
  then have wu: "without_underscores ?a = Some ?a" by (simp add: without_underscores_def)
  obtain sg b where sb: "split_sign ?a = (sg, b)" by (cases "split_sign ?a")
  then have pb: "list_all plain_char b" and lb: "length b \<le> 308"
    using pa la assms(2) by (cases ?a; auto simp: split_sign_def split: if_splits)+
  from assms(3) have "parse_decimal sg b = Some f"
    by (auto simp: py_float_def wu strip_space_plain [OF pa] sb parse_inf_or_nan_plain [OF pb]
             split: option.splits)
  with pb lb show ?thesis by (rule parse_decimal_plain)
qed

subsection \<open>The characters and the length of a token\<close>

lemma run_takes:
  "takes_only A r \<Longrightarrow> st' \<in> set (run r st) \<Longrightarrow> \<exists>u. rest st = u @ rest st' \<and> list_all A u"
proof (induction r st arbitrary: st' rule: run.induct)
  case (1 c p s g)
  then show ?case by (cases s) (auto simp: rest_def split: if_splits)
next
  case (2 f p s g)
  then show ?case by (cases s) (auto simp: rest_def split: if_splits)
next
  case (3 r1 r2 p s g)
  from 3(4) obtain x where x: "x \<in> set (run r1 (p, s, g))" and st': "st' \<in> set (run r2 x)"
    by auto
  from 3(3) have t1: "takes_only A r1" and t2: "takes_only A r2" by auto
  from 3(1) [OF t1 x] obtain u1 where "rest (p, s, g) = u1 @ rest x" "list_all A u1" by blast
  moreover from 3(2) [OF x t2 st'] obtain u2 where "rest x = u2 @ rest st'" "list_all A u2"
    by blast
  ultimately have "rest (p, s, g) = (u1 @ u2) @ rest st'" "list_all A (u1 @ u2)" by auto
  then show ?case by blast
next
  case (4 m n r p s g)
  from 4(3) have t: "takes_only A r" by simp
  from 4(4) consider
    (iter) x where "n \<noteq> Some 0" "x \<in> set (run r (p, s, g))" "length (rest x) < length s"
      "st' \<in> set (run (Rep (m - 1) (dec_max n) r) x)"
    | (stop) "st' = (p, s, g)"
    by (auto split: if_splits)
  then show ?case
  proof cases
    case iter
    from 4(1) [OF iter(1) t iter(2)] obtain u1 where "rest (p, s, g) = u1 @ rest x"
      "list_all A u1" by blast
    moreover have "takes_only A (Rep (m - 1) (dec_max n) r)" using t by simp
    from 4(2) [OF iter(1,2,3) this iter(4)] obtain u2 where "rest x = u2 @ rest st'"
      "list_all A u2" by blast
    ultimately have "rest (p, s, g) = (u1 @ u2) @ rest st'" "list_all A (u1 @ u2)" by auto
    then show ?thesis by blast
  next
    case stop
    then show ?thesis by simp
  qed
next
  case (5 r p s g)
  from 5(3) obtain x where x: "x \<in> set (run r (p, s, g))" and "rest st' = rest x"
    by (auto simp: rest_def)
  from 5(2) have "takes_only A r" by simp
  from 5(1) [OF this x] \<open>rest st' = rest x\<close> show ?case by simp
next
  case (6 f p s g)
  then show ?case by (auto split: option.splits if_splits)
next
  case (7 f p s g)
  then show ?case by (auto split: list.splits if_splits)
next
  case (8 p s g)
  then show ?case by (auto split: if_splits)
qed

lemma run_shorter: "st' \<in> set (run r st) \<Longrightarrow> length (rest st') \<le> length (rest st)"
  using run_suffix [of st' r st] by auto

lemma run_groups_only:
  "groups_only A r \<Longrightarrow> list_all (short_over A k) (snd (snd st)) \<Longrightarrow> length (rest st) \<le> k
   \<Longrightarrow> st' \<in> set (run r st) \<Longrightarrow> list_all (short_over A k) (snd (snd st'))"
proof (induction r st arbitrary: st' rule: run.induct)
  case (1 c p s g)
  then show ?case by (cases s) (auto split: if_splits)
next
  case (2 f p s g)
  then show ?case by (cases s) (auto split: if_splits)
next
  case (3 r1 r2 p s g)
  from 3(6) obtain x where x: "x \<in> set (run r1 (p, s, g))" and st': "st' \<in> set (run r2 x)"
    by auto
  from 3(3) have d1: "groups_only A r1" and d2: "groups_only A r2" by auto
  from 3(1) [OF d1 3(4,5) x] have g: "list_all (short_over A k) (snd (snd x))" .
  from run_shorter [OF x] 3(5) have "length (rest x) \<le> k" by simp
  from 3(2) [OF x d2 g this st'] show ?case .
next
  case (4 m n r p s g)
  from 4(3) have d: "groups_only A r" by simp
  from 4(6) consider
    (iter) x where "n \<noteq> Some 0" "x \<in> set (run r (p, s, g))" "length (rest x) < length s"
      "st' \<in> set (run (Rep (m - 1) (dec_max n) r) x)"
    | (stop) "st' = (p, s, g)"
    by (auto split: if_splits)
  then show ?case
  proof cases
    case iter
    from 4(1) [OF iter(1) d 4(4,5) iter(2)] have g: "list_all (short_over A k) (snd (snd x))" .
    from run_shorter [OF iter(2)] 4(5) have l: "length (rest x) \<le> k" by simp
    have "groups_only A (Rep (m - 1) (dec_max n) r)" using d by simp
    from 4(2) [OF iter(1,2,3) this g l iter(4)] show ?thesis .
  next
    case stop
    then show ?thesis using 4(4) by simp
  qed
next
  case (5 r p s g)
  from 5(2) have h: "takes_only A r" and d: "groups_only A r" by auto
  from 5(5) obtain x where x: "x \<in> set (run r (p, s, g))"
    and st': "snd (snd st') = snd (snd x) @ [take (length s - length (rest x)) s]"
    by auto
  from 5(1) [OF d 5(3,4) x] have g: "list_all (short_over A k) (snd (snd x))" .
  from run_takes [OF h x] obtain u where u: "s = u @ rest x" "list_all A u"
    by (auto simp: rest_def)
  have tk: "take (length s - length (rest x)) s = u"
    by (subst (1 2) u(1)) simp
  have "length s = length u + length (rest x)" using u(1) by (metis length_append)
  then have "length u \<le> length s" by simp
  with 5(4) have "length u \<le> k" by (simp add: rest_def)
  with u(2) have "short_over A k u" by (simp add: short_over_def)
  then show ?case using g by (simp add: st' tk)
next
  case (6 f p s g)
  then show ?case by (auto split: option.splits if_splits)
next
  case (7 f p s g)
  then show ?case by (auto split: list.splits if_splits)
next
  case (8 p s g)
  then show ?case by (auto split: if_splits)
qed

lemma scan_short:
  assumes "groups_only A r"
  shows "(tok, gs) \<in> set (scan r p s) \<Longrightarrow> length s \<le> k
    \<Longrightarrow> length tok \<le> k \<and> (takes_only A r \<longrightarrow> list_all A tok) \<and> list_all (short_over A k) gs"
proof (induction "length s" arbitrary: p s rule: less_induct)
  case less
  have step: ?case if "s = c # cs" and "(tok, gs) \<in> set (scan r (Some c) cs)" for c cs
    using less.hyps [of cs "Some c"] that less.prems(2) by simp
  show ?case
  proof (cases "match_at r p s")
    case None
    show ?thesis
    proof (cases s)
      case Nil
      with None less.prems show ?thesis by (subst (asm) scan.simps) simp
    next
      case (Cons c cs)
      with None less.prems have "(tok, gs) \<in> set (scan r (Some c) cs)"
        by (subst (asm) scan.simps) simp
      with Cons show ?thesis by (rule step)
    qed
  next
    case (Some st)
    from match_at_in_run [OF Some] have st: "st \<in> set (run r (p, s, []))" .
    from run_groups_only [OF assms _ _ st] less.prems(2)
    have g: "list_all (short_over A k) (snd (snd st))" by (simp add: rest_def)
    from run_suffix [OF st] obtain u where u: "s = u @ rest st" by (auto simp: rest_def)
    have tk: "take (length s - length (rest st)) s = u"
      by (subst (1 2) u) simp
    have "length s = length u + length (rest st)" using u by (metis length_append)
    then have "length u \<le> length s" by simp
    with less.prems(2) have lu: "length u \<le> k" by simp
    have au: "list_all A u" if "takes_only A r"
    proof -
      from run_takes [OF that st] obtain u' where u': "s = u' @ rest st" "list_all A u'"
        by (auto simp: rest_def)
      from u u'(1) have "u' = u" by (metis append_same_eq)
      with u'(2) show ?thesis by simp
    qed
    from run_shorter [OF st] have le: "length (rest st) \<le> length s" by (simp add: rest_def)
    from less.prems(1) Some
    consider (here) "tok = u \<or> tok = []" "gs = snd (snd st)"
      | (later) "length (rest st) < length s" "(tok, gs) \<in> set (scan r (fst st) (rest st))"
      | (skip) c cs where "s = c # cs" "(tok, gs) \<in> set (scan r (Some c) cs)"
      by (subst (asm) scan.simps) (auto simp: tk split: if_splits list.splits)
    then show ?thesis
    proof cases
      case here
      then show ?thesis using g lu au by auto
    next
      case later
      from less.hyps [OF later(1) later(2)] le less.prems(2) show ?thesis by simp
    next
      case skip
      then show ?thesis by (rule step)
    qed
  qed
qed

lemma takes_only_patterns: "takes_only tok_char NUM_RE" "groups_only tok_char NUM_RE"
  "groups_only tok_char SCORE_RE"
  by (simp_all add: NUM_RE_def SCORE_RE_def tok_char_def num_char_def)

lemma tokens_short:
  assumes "t \<in> set (tokens_of v)" and "length v \<le> k"
  shows "short_over tok_char k t"
proof -
  from assms(1) consider (num) "t \<in> set (numbers_from_text (Some v))"
    | (score) "t \<in> set (score_parts (scorelines_from_text (Some v)))"
    by (auto simp: tokens_of_def)
  then show ?thesis
  proof cases
    case num
    then obtain gs where "(t, gs) \<in> set (scan NUM_RE None v)"
      by (auto simp: numbers_from_text_def or_empty_def)
    from scan_short [OF takes_only_patterns(2) this assms(2)] takes_only_patterns(1)
    show ?thesis by (simp add: short_over_def)
  next
    case score
    then obtain pr where "pr \<in> set (scorelines_from_text (Some v))" and "t = fst pr \<or> t = snd pr"
      by (rule score_parts_elem)
    then obtain tok gs where m: "(tok, gs) \<in> set (scan SCORE_RE None v)"
      and t: "t = fst (pair_of_groups gs) \<or> t = snd (pair_of_groups gs)"
      by (auto simp: scorelines_from_text_def or_empty_def)
    from scan_short [OF takes_only_patterns(3) m assms(2)]
    have "list_all (short_over tok_char k) gs" by simp
    then have "short_over tok_char k (fst (pair_of_groups gs))"
      and "short_over tok_char k (snd (pair_of_groups gs))"
      by (auto simp: pair_of_groups_def short_over_def split: list.splits)
    with t show ?thesis by auto
  qed
qed

lemma normalize_short:
  assumes "short_over tok_char k t"
  shows "short_over num_char k (normalize_number_token t)"
proof -
  let ?f = "remove_chr 44 t"
  have f: "list_all num_char ?f" "length ?f \<le> k"
    using assms le_trans [OF length_filter_le [of "\<lambda>x. x \<noteq> 44" t]]
    by (auto simp: short_over_def remove_chr_def list_all_iff tok_char_def)
  have "set (rstrip_chr 37 ?f) \<subseteq> set ?f"
    using set_dropWhileD [of _ "\<lambda>x. x = 37" "rev ?f"] by (auto simp: rstrip_chr_def)
  moreover have "length (rstrip_chr 37 ?f) \<le> length ?f"
    using length_dropWhile_le [of "\<lambda>x. x = 37" "rev ?f"] by (simp add: rstrip_chr_def)
  ultimately show ?thesis using f
    by (auto simp: short_over_def normalize_number_token_def list_all_iff)
qed

subsection \<open>The calls return\<close>

lemma token_variants_return:
  assumes "t \<in> set (tokens_of v)" and "length v \<le> 308"
  shows "\<exists>S. variants (normalize_number_token t) = Inr S"
proof -
  let ?n = "normalize_number_token t"
  from normalize_short [OF tokens_short [OF assms]]
  have n: "list_all num_char ?n" "length ?n \<le> 308" by (simp_all add: short_over_def)
  show ?thesis
  proof (cases "py_float ?n")
    case None
    then show ?thesis by (simp add: variants_def)
  next
    case (Some f)
    from py_float_plain [OF n Some] have "valid_double f" .
    with Some show ?thesis by (rule variants_valid)
  qed
qed

lemma first_raise_return:
  "\<forall>t\<in>set ts. \<exists>S. variants (normalize_number_token t) = Inr S \<Longrightarrow> first_raise ts = None"
  by (induction ts) (auto split: sum.splits)

lemma first_error_return:
  "\<forall>t\<in>set ts. \<exists>S. variants (normalize_number_token t) = Inr S \<Longrightarrow> first_error ts = None"
  by (induction ts) (auto split: sum.splits)

lemma index_fact_numbers_returns:
  assumes "\<And>f. f \<in> set fs \<Longrightarrow> length (value_text f) \<le> 308"
  shows "\<exists>idx. index_fact_numbers (Some fs) = Inr idx"
proof -
  have "first_raise (concat (map (\<lambda>f. tokens_of (value_text f)) fs)) = None"
    by (rule first_raise_return) (use assms token_variants_return in auto)
  then show ?thesis by (simp add: index_fact_numbers_eq)
qed

lemma assert_numbers_in_facts_returns:
  assumes "length (or_empty body) \<le> 308"
    and "\<And>f. f \<in> set (case facts of None \<Rightarrow> [] | Some fs \<Rightarrow> fs) \<Longrightarrow> length (value_text f) \<le> 308"
  shows "\<exists>missing. assert_numbers_in_facts body facts = Inr missing"
proof -
  have "\<exists>idx. index_fact_numbers facts = Inr idx"
  proof (cases facts)
    case None
    then show ?thesis by (simp add: index_fact_numbers_def)
  next
    case (Some fs)
    with assms(2) show ?thesis using index_fact_numbers_returns [of fs] by simp
  qed
  moreover have "first_error (tokens_of (or_empty body)) = None"
    by (rule first_error_return) (use assms(1) token_variants_return in auto)
  ultimately show ?thesis by (auto simp: assert_numbers_in_facts_eq)
qed

section \<open>Scorelines against the facts (claims C1 and C2)\<close>

lemma eval_2_0:
  "assert_numbers_in_facts (Some (ustr ''2-0'')) (Some [mk_fact (ustr ''3-1'')])
     = Inr [ustr ''0'', ustr ''-0'']"
  by (simp add: tok_defs float_defs cmp_defs mk_fact_def split del: if_split)

lemma eval_7_4:
  "assert_numbers_in_facts (Some (ustr ''7-4'')) (Some [mk_fact (ustr ''3-1'')])
     = Inr [ustr ''7'', ustr ''4'', ustr ''-4'']"
  by (simp add: tok_defs float_defs cmp_defs mk_fact_def split del: if_split)

lemma allow_2_not_0: "ustr ''2'' \<in> ALLOW \<and> ustr ''0'' \<notin> ALLOW"
  by (simp add: ALLOW_def ustr_def)

text \<open>
  Claim C1, as the code has it. With the single fact value \<^verbatim>\<open>3-1\<close>, the body \<^verbatim>\<open>2-0\<close>
  gives the list \<^verbatim>\<open>["0", "-0"]\<close>: \<^verbatim>\<open>2\<close> is in the allow-list and \<^verbatim>\<open>0\<close> is not, so the
  half \<^verbatim>\<open>0\<close> of the scoreline is flagged, and so is the token \<^verbatim>\<open>-0\<close> that the
  plain-number pass reads from the hyphen on. The body \<^verbatim>\<open>7-4\<close> gives
  \<^verbatim>\<open>["7", "4", "-4"]\<close>: both halves are flagged.
\<close>

theorem unrelated_scoreline_flagged:
  "assert_numbers_in_facts (Some (ustr ''2-0'')) (Some [mk_fact (ustr ''3-1'')])
     = Inr [ustr ''0'', ustr ''-0'']
   \<and> ustr ''2'' \<in> ALLOW \<and> ustr ''0'' \<notin> ALLOW
   \<and> assert_numbers_in_facts (Some (ustr ''7-4'')) (Some [mk_fact (ustr ''3-1'')])
     = Inr [ustr ''7'', ustr ''4'', ustr ''-4'']"
  using eval_2_0 eval_7_4 allow_2_not_0 by simp

text \<open>
  Claim C1 as stated fails: the result for the body \<^verbatim>\<open>2-0\<close> is not empty.
\<close>

theorem scoreline_2_0_counterexample:
  "assert_numbers_in_facts (Some (ustr ''2-0'')) (Some [mk_fact (ustr ''3-1'')]) \<noteq> Inr []"
  using eval_2_0 by simp

lemma eval_numbers_3_1:
  "numbers_from_text (Some (ustr ''3-1'')) = [ustr ''3'', ustr ''-1'']"
  by (simp add: tok_defs split del: if_split)

lemma eval_scorelines_3_1:
  "scorelines_from_text (Some (ustr ''3-1'')) = [(ustr ''3'', ustr ''1'')]"
  by (simp add: tok_defs split del: if_split)

lemma eval_index_3_1:
  "index_fact_numbers (Some [mk_fact (ustr ''3-1'')])
     = Inr {ustr ''3'', ustr ''3.0'', ustr ''3.00'', ustr ''1'', ustr ''1.0'', ustr ''1.00'',
            ustr ''-1'', ustr ''-1.0'', ustr ''-1.00''}"
  by (simp add: tok_defs float_defs cmp_defs mk_fact_def split del: if_split; auto)

lemma eval_score_index_3_1:
  "update_variants {} (score_parts (scorelines_from_text (Some (ustr ''3-1''))))
     = Inr {ustr ''3'', ustr ''3.0'', ustr ''3.00'', ustr ''1'', ustr ''1.0'', ustr ''1.00''}"
  by (simp add: tok_defs float_defs cmp_defs mk_fact_def split del: if_split; auto)

text \<open>
  Claim C2, as the code has it. For a text \<open>a-b\<close> whose halves \<open>a\<close> and \<open>b\<close> are runs
  of one to three ASCII digits, the plain-number pass does capture the digits of the
  scoreline: it returns \<open>a\<close> and \<open>-b\<close> (the hyphen read as a sign), while the scoreline
  pass returns the pair \<open>(a, b)\<close>. So a fact value such as \<^verbatim>\<open>3-1\<close> contributes to the
  fact index through both passes.
\<close>

theorem scoreline_digits_recaptured:
  assumes "a \<noteq> []" and "list_all ascii_digit a" and "length a \<le> 3"
    and "b \<noteq> []" and "list_all ascii_digit b" and "length b \<le> 3"
  shows "numbers_from_text (Some (a @ 45 # b)) = [a, 45 # b]
         \<and> scorelines_from_text (Some (a @ 45 # b)) = [(a, b)]"
  using numbers_digits [OF assms] scorelines_digits [OF assms(1,2,4,5)] by simp

theorem scoreline_digits_recaptured_witness:
  "numbers_from_text (Some (ustr ''3-1'')) = [ustr ''3'', ustr ''-1'']
   \<and> scorelines_from_text (Some (ustr ''3-1'')) = [(ustr ''3'', ustr ''1'')]"
  using scoreline_digits_recaptured [of "ustr ''3''" "ustr ''1''"]
  by (simp add: ustr_def ascii_digit_def)

text \<open>
  Claim C2 as stated fails at the fact value \<^verbatim>\<open>3-1\<close>: the plain-number pass returns
  \<^verbatim>\<open>3\<close> and \<^verbatim>\<open>-1\<close>, and the fact index holds \<^verbatim>\<open>-1\<close>, \<^verbatim>\<open>-1.0\<close> and \<^verbatim>\<open>-1.00\<close>,
  which the scoreline pass alone does not give.
\<close>

theorem scoreline_only_counterexample:
  "numbers_from_text (Some (ustr ''3-1'')) = [ustr ''3'', ustr ''-1'']
   \<and> index_fact_numbers (Some [mk_fact (ustr ''3-1'')])
       \<noteq> update_variants {} (score_parts (scorelines_from_text (Some (ustr ''3-1''))))"
proof -
  have "ustr ''-1'' \<in> {ustr ''3'', ustr ''3.0'', ustr ''3.00'', ustr ''1'', ustr ''1.0'',
      ustr ''1.00'', ustr ''-1'', ustr ''-1.0'', ustr ''-1.00''}"
    by simp
  moreover have "ustr ''-1'' \<notin> {ustr ''3'', ustr ''3.0'', ustr ''3.00'', ustr ''1'',
      ustr ''1.0'', ustr ''1.00''}"
    by (simp add: ustr_def)
  ultimately show ?thesis
    unfolding eval_index_3_1 eval_score_index_3_1 using eval_numbers_3_1 by auto
qed

section \<open>The result of the comparator (claims C6, C8 and C10)\<close>

lemma result_flagged:
  assumes "assert_numbers_in_facts body facts = Inr r"
  shows "\<exists>idx. index_fact_numbers facts = Inr idx
           \<and> first_error (tokens_of (or_empty body)) = None
           \<and> r = unique_preserve_order (filter (flagged idx) (tokens_of (or_empty body)))"
  using assms unfolding assert_numbers_in_facts_eq
  by (auto split: sum.splits option.splits)

lemma index_contains_variants:
  assumes "index_fact_numbers (Some fs) = Inr idx" and "f \<in> set fs"
    and "t \<in> set (tokens_of (value_text f))"
  shows "variant_set t \<subseteq> idx"
  using assms unfolding index_fact_numbers_eq by (auto split: option.splits)

lemma eval_tokens_1_8: "tokens_of (ustr ''1.8'') = [ustr ''1.8'']"
  by (simp add: tokens_of_def tok_defs split del: if_split)

lemma eval_variants_1_8:
  "variants (ustr ''1.8'') = Inr {ustr ''1.8'', ustr ''2'', ustr ''1.80''}"
  by (simp add: variants_def float_defs ascii_digit_def ustr_def rstrip_chr_def
      split del: if_split; auto)

lemma eval_variants_1_80:
  "variants (ustr ''1.80'') = Inr {ustr ''1.80'', ustr ''2'', ustr ''1.8''}"
  by (simp add: variants_def float_defs ascii_digit_def ustr_def rstrip_chr_def
      split del: if_split; auto)

lemma eval_normalize:
  "normalize_number_token (ustr ''1.8'') = ustr ''1.8''"
  "normalize_number_token (ustr ''1.80'') = ustr ''1.80''"
  "normalize_number_token (ustr ''1.8%'') = ustr ''1.8''"
  "normalize_number_token (ustr ''2'') = ustr ''2''"
  by (simp_all add: normalize_number_token_def remove_chr_def rstrip_chr_def ustr_def)

lemma eval_tolerant:
  "assert_numbers_in_facts (Some (ustr ''From 1.80 to 2, or 1.8%, not 47''))
     (Some [mk_fact (ustr ''1.8'')]) = Inr [ustr ''47'']"
  by (simp add: tok_defs float_defs cmp_defs mk_fact_def split del: if_split)

text \<open>
  Claim C6. If some fact of the list has the value \<^verbatim>\<open>1.8\<close>, then whatever the body and
  the other facts are, none of the tokens \<^verbatim>\<open>1.80\<close>, \<^verbatim>\<open>2\<close> and \<^verbatim>\<open>1.8%\<close> is in the
  list that the comparator returns.
\<close>

theorem tolerant_rounding:
  assumes "f \<in> set facts" and "fact_value f = Some (ustr ''1.8'')"
    and "assert_numbers_in_facts body (Some facts) = Inr r"
  shows "ustr ''1.80'' \<notin> set r \<and> ustr ''2'' \<notin> set r \<and> ustr ''1.8%'' \<notin> set r"
proof -
  from result_flagged [OF assms(3)] obtain idx where
    idx: "index_fact_numbers (Some facts) = Inr idx"
    and r: "r = unique_preserve_order (filter (flagged idx) (tokens_of (or_empty body)))"
    by blast
  have "value_text f = ustr ''1.8''"
    using assms(2) by (simp add: value_text_def or_empty_def)
  then have "ustr ''1.8'' \<in> set (tokens_of (value_text f))"
    by (simp add: eval_tokens_1_8)
  from index_contains_variants [OF idx assms(1) this]
  have in_idx: "ustr ''1.8'' \<in> idx"
    by (simp add: variant_set_def eval_normalize eval_variants_1_8)
  have a: "\<not> flagged idx (ustr ''1.80'')"
    using in_idx by (auto simp: flagged_def eval_normalize eval_variants_1_80)
  have b: "\<not> flagged idx (ustr ''2'')"
    by (simp add: flagged_def eval_normalize ALLOW_def)
  have c: "\<not> flagged idx (ustr ''1.8%'')"
    using in_idx by (auto simp: flagged_def eval_normalize eval_variants_1_8)
  have "\<And>x. x \<in> set r \<Longrightarrow> flagged idx x"
    by (simp add: r set_unique_preserve_order)
  with a b c show ?thesis by blast
qed

theorem tolerant_rounding_witness:
  "assert_numbers_in_facts (Some (ustr ''From 1.80 to 2, or 1.8%, not 47''))
     (Some [mk_fact (ustr ''1.8'')]) = Inr [ustr ''47'']
   \<and> ustr ''1.80'' \<notin> set [ustr ''47'']
   \<and> ustr ''2'' \<notin> set [ustr ''47'']
   \<and> ustr ''1.8%'' \<notin> set [ustr ''47'']"
  using eval_tolerant
    tolerant_rounding [of "mk_fact (ustr ''1.8'')" "[mk_fact (ustr ''1.8'')]"
      "Some (ustr ''From 1.80 to 2, or 1.8%, not 47'')" "[ustr ''47'']"]
  by (simp add: mk_fact_def)

lemma eval_order_dedup:
  "assert_numbers_in_facts (Some (ustr ''47, 47, and 99'')) (Some [])
     = Inr [ustr ''47'', ustr ''99'']"
  by (simp add: tok_defs float_defs cmp_defs split del: if_split)

text \<open>
  Claim C8. The body \<^verbatim>\<open>47, 47, and 99\<close> with no facts gives exactly
  \<^verbatim>\<open>["47", "99"]\<close>. In general a returned list has no duplicates, and it is the list of
  the flagged tokens of the body (scoreline halves, then standalone numbers, each in the
  order of the text) from which every occurrence of a token after its first is removed.
\<close>

theorem order_and_dedup:
  "assert_numbers_in_facts (Some (ustr ''47, 47, and 99'')) (Some [])
     = Inr [ustr ''47'', ustr ''99'']
   \<and> (\<forall>body facts r. assert_numbers_in_facts body facts = Inr r \<longrightarrow>
         distinct r
         \<and> (\<exists>idx. index_fact_numbers facts = Inr idx
               \<and> r = rev (remdups (rev (filter (flagged idx) (tokens_of (or_empty body)))))))"
proof -
  have "distinct r \<and> (\<exists>idx. index_fact_numbers facts = Inr idx
          \<and> r = rev (remdups (rev (filter (flagged idx) (tokens_of (or_empty body))))))"
    if "assert_numbers_in_facts body facts = Inr r" for body facts r
  proof -
    from result_flagged [OF that] obtain idx where
      idx: "index_fact_numbers facts = Inr idx"
      and r: "r = unique_preserve_order (filter (flagged idx) (tokens_of (or_empty body)))"
      by blast
    have "distinct r" by (simp add: r distinct_unique_preserve_order)
    moreover have "r = rev (remdups (rev (filter (flagged idx) (tokens_of (or_empty body)))))"
      by (simp only: r unique_preserve_order_eq)
    ultimately show ?thesis using idx by blast
  qed
  then show ?thesis using eval_order_dedup by blast
qed

theorem order_and_dedup_witness:
  "assert_numbers_in_facts (Some (ustr ''47, 47, and 99'')) (Some [])
     = Inr [ustr ''47'', ustr ''99'']
   \<and> distinct [ustr ''47'', ustr ''99'']
   \<and> (\<exists>idx. index_fact_numbers (Some []) = Inr idx
         \<and> [ustr ''47'', ustr ''99'']
             = rev (remdups (rev (filter (flagged idx)
                 (tokens_of (or_empty (Some (ustr ''47, 47, and 99''))))))))"
proof -
  have e: "assert_numbers_in_facts (Some (ustr ''47, 47, and 99'')) (Some [])
     = Inr [ustr ''47'', ustr ''99'']"
    using order_and_dedup by blast
  moreover have "\<forall>body facts r. assert_numbers_in_facts body facts = Inr r \<longrightarrow>
         distinct r
         \<and> (\<exists>idx. index_fact_numbers facts = Inr idx
               \<and> r = rev (remdups (rev (filter (flagged idx) (tokens_of (or_empty body))))))"
    using order_and_dedup by blast
  ultimately show ?thesis by blast
qed

lemma flagged_mono: "idx1 \<subseteq> idx2 \<Longrightarrow> flagged idx2 t \<Longrightarrow> flagged idx1 t"
  by (auto simp: flagged_def split: sum.splits)

lemma eval_more_facts:
  "assert_numbers_in_facts (Some (ustr ''47, 47, and 99'')) (Some ([] @ [mk_fact (ustr ''47'')]))
     = Inr [ustr ''99'']"
  by (simp add: tok_defs float_defs cmp_defs mk_fact_def split del: if_split)

text \<open>
  Claim C10. If the comparator returns a list for the facts \<open>F\<close> followed by the facts
  \<open>G\<close>, then it returns a list for \<open>F\<close> alone, and the first list is a subsequence of
  the second: every token flagged with more facts is flagged with fewer, in the same
  relative order.
\<close>

theorem more_facts_flag_less:
  assumes "assert_numbers_in_facts body (Some (F @ G)) = Inr r2"
  shows "\<exists>r1. assert_numbers_in_facts body (Some F) = Inr r1 \<and> subseq r2 r1 \<and> set r2 \<subseteq> set r1"
proof -
  let ?T = "tokens_of (or_empty body)"
  let ?tk = "\<lambda>f. tokens_of (value_text f)"
  from result_flagged [OF assms] obtain idx2 where
    idx2: "index_fact_numbers (Some (F @ G)) = Inr idx2"
    and ok: "first_error ?T = None"
    and r2: "r2 = unique_preserve_order (filter (flagged idx2) ?T)"
    by blast
  from idx2 have none: "first_raise (concat (map ?tk F)) = None"
    and i2: "idx2 = (\<Union>f\<in>set (F @ G). \<Union>t\<in>set (?tk f). variant_set t)"
    unfolding index_fact_numbers_eq by (auto simp: first_raise_append split: option.splits)
  define idx1 where "idx1 = (\<Union>f\<in>set F. \<Union>t\<in>set (?tk f). variant_set t)"
  have idx1: "index_fact_numbers (Some F) = Inr idx1"
    unfolding index_fact_numbers_eq by (simp add: none idx1_def)
  have sub: "idx1 \<subseteq> idx2" unfolding idx1_def i2 by auto
  define r1 where "r1 = unique_preserve_order (filter (flagged idx1) ?T)"
  have res: "assert_numbers_in_facts body (Some F) = Inr r1"
    unfolding assert_numbers_in_facts_eq by (simp add: idx1 ok r1_def)
  have "filter (flagged idx2) ?T = filter (flagged idx2) (filter (flagged idx1) ?T)"
    using flagged_mono [OF sub] by (auto intro: filter_cong)
  then have "r2 = filter (flagged idx2) r1"
    by (simp only: r2 r1_def unique_preserve_order_filter)
  then have "subseq r2 r1" and "set r2 \<subseteq> set r1" by auto
  with res show ?thesis by blast
qed

theorem more_facts_flag_less_witness:
  "assert_numbers_in_facts (Some (ustr ''47, 47, and 99'')) (Some ([] @ [mk_fact (ustr ''47'')]))
     = Inr [ustr ''99'']
   \<and> assert_numbers_in_facts (Some (ustr ''47, 47, and 99'')) (Some [])
     = Inr [ustr ''47'', ustr ''99'']
   \<and> subseq [ustr ''99''] [ustr ''47'', ustr ''99'']"
proof -
  from more_facts_flag_less [OF eval_more_facts] obtain r1 where
    "assert_numbers_in_facts (Some (ustr ''47, 47, and 99'')) (Some []) = Inr r1"
    and "subseq [ustr ''99''] r1"
    by blast
  then show ?thesis using eval_more_facts eval_order_dedup by simp
qed

section \<open>The fact index depends on the set of values only (claim C9)\<close>

lemma round_digits_error: "round_digits f nd = Inl err \<Longrightarrow> err = OverflowError"
  by (auto simp: round_digits_def split: py_float.splits)

lemma variants_value_error:
  assumes "variants s = Inl ValueError"
  shows "py_float s = Some NaN"
proof (cases "py_float s")
  case None
  with assms show ?thesis by (simp add: variants_def)
next
  case (Some f)
  show ?thesis
  proof (cases "round_to_int f")
    case (Inl err)
    with assms Some have "err = ValueError" by (simp add: variants_def)
    with Inl have "f = NaN"
      by (auto simp: round_to_int_def Let_def split: py_float.splits)
    with Some show ?thesis by simp
  next
    case (Inr i)
    with assms Some show ?thesis
      by (auto simp: variants_def split: sum.splits dest: round_digits_error)
  qed
qed

lemma is_digit_not_comma_percent: "is_digit c \<Longrightarrow> c \<noteq> 44 \<and> c \<noteq> 37"
  by (auto simp: is_digit_def ascii_digit_def split: if_splits)

lemma with_digit_normalize:
  assumes "with_digit t"
  shows "with_digit (normalize_number_token t)"
proof -
  from assms obtain c where c: "c \<in> set t" "is_digit c"
    by (auto simp: with_digit_def list_ex_iff)
  obtain k where k: "remove_chr 44 t = normalize_number_token t @ replicate k 37"
    using rstrip_chr_decomp [of "remove_chr 44 t" 37] by (auto simp: normalize_number_token_def)
  have "c \<in> set (remove_chr 44 t)"
    using c is_digit_not_comma_percent [OF c(2)] by (simp add: remove_chr_def)
  then have "c \<in> set (normalize_number_token t)"
    using is_digit_not_comma_percent [OF c(2)] by (simp add: k)
  with c(2) show ?thesis by (auto simp: with_digit_def list_ex_iff)
qed

lemma variants_empty: "variants [] = Inr {[]}"
  by (simp add: variants_def float_defs ustr_def split del: if_split)

lemma normalize_empty: "normalize_number_token [] = []"
  by (simp add: normalize_number_token_def remove_chr_def rstrip_chr_def)

lemma token_no_value_error:
  assumes "t \<in> set (tokens_of v)"
  shows "variants (normalize_number_token t) \<noteq> Inl ValueError"
proof (cases "t = []")
  case True
  then show ?thesis by (simp add: normalize_empty variants_empty)
next
  case False
  with tokens_with_digit [OF assms] have "with_digit (normalize_number_token t)"
    by (auto intro: with_digit_normalize)
  then show ?thesis
    using py_float_nan_no_digit variants_value_error by blast
qed

lemma first_raise_set:
  assumes "\<forall>t\<in>set ts. variants (normalize_number_token t) \<noteq> Inl ValueError"
  shows "first_raise ts =
    (if \<exists>t\<in>set ts. variants (normalize_number_token t) = Inl OverflowError
     then Some OverflowError else None)"
  using assms
proof (induction ts)
  case Nil
  show ?case by simp
next
  case (Cons t ts)
  show ?case
  proof (cases "variants (normalize_number_token t)")
    case (Inl err)
    with Cons.prems have "err = OverflowError" by (cases err) auto
    with Inl show ?thesis by simp
  next
    case (Inr vs)
    with Cons show ?thesis by simp
  qed
qed

lemma index_fact_numbers_set:
  "index_fact_numbers (Some fs) =
    (if \<exists>v\<in>value_text ` set fs. \<exists>t\<in>set (tokens_of v).
          variants (normalize_number_token t) = Inl OverflowError
     then Inl OverflowError
     else Inr (\<Union>v\<in>value_text ` set fs. \<Union>t\<in>set (tokens_of v). variant_set t))"
proof -
  let ?ts = "concat (map (\<lambda>f. tokens_of (value_text f)) fs)"
  have "\<forall>t\<in>set ?ts. variants (normalize_number_token t) \<noteq> Inl ValueError"
    by (auto dest: token_no_value_error)
  from first_raise_set [OF this] show ?thesis
    unfolding index_fact_numbers_eq by auto
qed

text \<open>
  Claim C9. Two fact lists with the same set of \<^verbatim>\<open>value\<close> fields give the same outcome
  for every body: the same list, or the same exception. Labels, sources, the order of
  the facts and repetitions among them play no part.
\<close>

theorem facts_as_set:
  assumes "set (map fact_value F) = set (map fact_value G)"
  shows "assert_numbers_in_facts body (Some F) = assert_numbers_in_facts body (Some G)"
proof -
  have "value_text ` set F = (\<lambda>x. or_empty x) ` set (map fact_value F)"
    by (auto simp: value_text_def)
  also have "\<dots> = (\<lambda>x. or_empty x) ` set (map fact_value G)"
    by (simp only: assms)
  also have "\<dots> = value_text ` set G"
    by (auto simp: value_text_def)
  finally have "index_fact_numbers (Some F) = index_fact_numbers (Some G)"
    by (simp only: index_fact_numbers_set)
  then show ?thesis
    by (simp only: assert_numbers_in_facts_def)
qed

theorem facts_as_set_witness:
  "set (map fact_value
          [\<lparr>fact_label = ustr ''Arsenal shots'', fact_value = Some (ustr ''47''),
             fact_source = ustr ''vw_round_facts''\<rparr>,
           \<lparr>fact_label = ustr ''Arsenal xG'', fact_value = Some (ustr ''1.8''),
             fact_source = ustr ''vw_round_facts''\<rparr>])
     = set (map fact_value
          [\<lparr>fact_label = ustr ''xG'', fact_value = Some (ustr ''1.8''),
             fact_source = ustr ''file''\<rparr>,
           \<lparr>fact_label = ustr ''shots'', fact_value = Some (ustr ''47''),
             fact_source = ustr ''file''\<rparr>,
           \<lparr>fact_label = ustr ''xG again'', fact_value = Some (ustr ''1.8''),
             fact_source = ustr ''file''\<rparr>])
   \<and> assert_numbers_in_facts (Some (ustr ''47, 47, and 99''))
       (Some [\<lparr>fact_label = ustr ''Arsenal shots'', fact_value = Some (ustr ''47''),
                fact_source = ustr ''vw_round_facts''\<rparr>,
              \<lparr>fact_label = ustr ''Arsenal xG'', fact_value = Some (ustr ''1.8''),
                fact_source = ustr ''vw_round_facts''\<rparr>])
     = assert_numbers_in_facts (Some (ustr ''47, 47, and 99''))
       (Some [\<lparr>fact_label = ustr ''xG'', fact_value = Some (ustr ''1.8''),
                fact_source = ustr ''file''\<rparr>,
              \<lparr>fact_label = ustr ''shots'', fact_value = Some (ustr ''47''),
                fact_source = ustr ''file''\<rparr>,
              \<lparr>fact_label = ustr ''xG again'', fact_value = Some (ustr ''1.8''),
                fact_source = ustr ''file''\<rparr>])"
proof -
  have h: "set (map fact_value
          [\<lparr>fact_label = ustr ''Arsenal shots'', fact_value = Some (ustr ''47''),
             fact_source = ustr ''vw_round_facts''\<rparr>,
           \<lparr>fact_label = ustr ''Arsenal xG'', fact_value = Some (ustr ''1.8''),
             fact_source = ustr ''vw_round_facts''\<rparr>])
     = set (map fact_value
          [\<lparr>fact_label = ustr ''xG'', fact_value = Some (ustr ''1.8''),
             fact_source = ustr ''file''\<rparr>,
           \<lparr>fact_label = ustr ''shots'', fact_value = Some (ustr ''47''),
             fact_source = ustr ''file''\<rparr>,
           \<lparr>fact_label = ustr ''xG again'', fact_value = Some (ustr ''1.8''),
             fact_source = ustr ''file''\<rparr>])"
    by auto
  from h facts_as_set [OF h] show ?thesis by blast
qed

section \<open>Where the verifier raises (claims C3, C4 and C5)\<close>

lemma variants_inf_nan:
  "variants (ustr ''inf'') = Inl OverflowError \<and> variants (ustr ''nan'') = Inl ValueError"
  by (simp add: variants_def float_defs ascii_digit_def ustr_def split del: if_split)

lemma variants_unparsed: "py_float n = None \<Longrightarrow> variants n = Inr {n}"
  by (simp add: variants_def)

lemma variants_contains_input: "variants n = Inr vs \<Longrightarrow> n \<in> vs"
  by (auto simp: variants_def split: option.splits sum.splits)

lemma scorelines_big_number:
  "scorelines_from_text (Some (big_number @ ustr ''-1'')) = [(big_number, ustr ''1'')]"
proof -
  have "ustr ''-1'' = 45 # ustr ''1''" by (simp add: ustr_def)
  then show ?thesis
    using scorelines_digits [OF big_number_digits, of "ustr ''1''"]
    by (simp add: ustr_def ascii_digit_def)
qed

text \<open>
  Claim C3 fails on the code. The variant generator raises where the parse succeeds
  with an infinity or a NaN, since the rounding that follows is outside the
  \<^verbatim>\<open>try\<close>: on the digit string of \<open>10 ^ 309\<close>, which the tokenizer can produce and
  which reads as infinity, on \<^verbatim>\<open>inf\<close> (both an \<^verbatim>\<open>OverflowError\<close>) and on \<^verbatim>\<open>nan\<close>
  (a \<^verbatim>\<open>ValueError\<close>).
\<close>

theorem variants_raises:
  "variants big_number = Inl OverflowError
   \<and> variants (ustr ''inf'') = Inl OverflowError
   \<and> variants (ustr ''nan'') = Inl ValueError"
  using variants_big_number variants_inf_nan by simp

lemma or_empty_None: "or_empty None = or_empty (Some [])"
  by (simp add: or_empty_def)

lemma index_fact_numbers_None: "index_fact_numbers None = index_fact_numbers (Some [])"
  by (simp add: index_fact_numbers_def)

lemma none_as_empty:
  "assert_numbers_in_facts None facts = assert_numbers_in_facts (Some []) facts"
  "assert_numbers_in_facts body None = assert_numbers_in_facts body (Some [])"
  unfolding assert_numbers_in_facts_def or_empty_None index_fact_numbers_None by (rule refl)+

lemma none_none_empty: "assert_numbers_in_facts None None = Inr []"
  by (simp add: tok_defs cmp_defs split del: if_split)

lemma assert_big_number:
  "assert_numbers_in_facts (Some (big_number @ ustr ''-1'')) None = Inl OverflowError"
  by (simp add: assert_numbers_in_facts_def index_fact_numbers_def or_empty_def score_parts_def
      scorelines_big_number normalize_digits [OF big_number_digits(2)] big_number_not_allowed
      variants_big_number)

text \<open>
  Claim C4 fails on the code: the entry point raises an \<^verbatim>\<open>OverflowError\<close> on the body
  that is the scoreline of \<open>10 ^ 309\<close> to \<open>1\<close>, with no facts. The rest of the claim
  holds: \<^verbatim>\<open>None\<close> for the body is the empty body, \<^verbatim>\<open>None\<close> for the facts is the
  empty list of facts, and the call on \<^verbatim>\<open>None\<close> and \<^verbatim>\<open>None\<close> returns the empty list.
\<close>

theorem assert_numbers_in_facts_raises:
  "assert_numbers_in_facts (Some (big_number @ ustr ''-1'')) None = Inl OverflowError
   \<and> (\<forall>facts. assert_numbers_in_facts None facts = assert_numbers_in_facts (Some []) facts)
   \<and> (\<forall>body. assert_numbers_in_facts body None = assert_numbers_in_facts body (Some []))
   \<and> assert_numbers_in_facts None None = Inr []"
  using assert_big_number none_as_empty none_none_empty by blast

lemma run_NUM_RE_no_start:
  assumes "c \<noteq> 45" and "\<not> is_digit c"
  shows "run NUM_RE (p, c # s, g) = []"
  using assms by (cases p) (simp_all add: NUM_RE_def dec_max_def rest_def)

lemma run_SCORE_RE_no_start:
  assumes "\<not> is_digit c"
  shows "run SCORE_RE (p, c # s, g) = []"
  using assms by (simp add: SCORE_RE_def dec_max_def rest_def)

lemma scan_NUM_RE_skip:
  assumes "c \<noteq> 45" and "\<not> is_digit c"
  shows "scan NUM_RE p (c # s) = scan NUM_RE (Some c) s"
  by (subst scan.simps) (simp add: match_at_def run_NUM_RE_no_start [OF assms])

lemma scan_SCORE_RE_skip:
  assumes "\<not> is_digit c"
  shows "scan SCORE_RE p (c # s) = scan SCORE_RE (Some c) s"
  by (subst scan.simps) (simp add: match_at_def run_SCORE_RE_no_start [OF assms])

lemma scan_prefix_NUM:
  "scan NUM_RE None (ustr ''The stat was '' @ v) = scan NUM_RE None v"
proof -
  have "scan NUM_RE None (ustr ''The stat was '' @ v) = scan NUM_RE (Some 32) v"
    by (simp add: ustr_def scan_NUM_RE_skip is_digit_def ascii_digit_def)
  also have "\<dots> = scan NUM_RE None v"
    by (rule scan_agree) (simp_all add: NUM_RE_def ascii_letter_def)
  finally show ?thesis .
qed

lemma scan_prefix_SCORE:
  "scan SCORE_RE None (ustr ''The stat was '' @ v) = scan SCORE_RE None v"
proof -
  have "scan SCORE_RE None (ustr ''The stat was '' @ v) = scan SCORE_RE (Some 32) v"
    by (simp add: ustr_def scan_SCORE_RE_skip is_digit_def ascii_digit_def)
  also have "\<dots> = scan SCORE_RE None v"
    by (rule scan_agree)
       (simp_all add: SCORE_RE_def word_before_def is_word_def ascii_letter_def ascii_digit_def)
  finally show ?thesis .
qed

lemma tokens_of_prefix: "tokens_of (ustr ''The stat was '' @ v) = tokens_of v"
  by (simp add: tokens_of_def numbers_from_text_def scorelines_from_text_def or_empty_def
      scan_prefix_NUM scan_prefix_SCORE)

lemma first_raise_None:
  "first_raise ts = None \<Longrightarrow> t \<in> set ts \<Longrightarrow> \<exists>vs. variants (normalize_number_token t) = Inr vs"
  by (induction ts) (auto split: sum.splits)

text \<open>
  The grounded round trip does hold wherever the call returns: for a fact list that holds
  the value \<open>v\<close>, a returned list for the body \<^verbatim>\<open>The stat was \<close>\<open>v\<close> is empty.
\<close>

lemma grounded_round_trip_unless_raising:
  assumes "f \<in> set facts" and "fact_value f = Some v"
    and "assert_numbers_in_facts (Some (ustr ''The stat was '' @ v)) (Some facts) = Inr r"
  shows "r = []"
proof -
  from result_flagged [OF assms(3)] obtain idx where
    idx: "index_fact_numbers (Some facts) = Inr idx"
    and r: "r = unique_preserve_order (filter (flagged idx) (tokens_of v))"
    by (auto simp: or_empty_def tokens_of_prefix)
  have v: "value_text f = v" using assms(2) by (simp add: value_text_def or_empty_def)
  from idx have none: "first_raise (concat (map (\<lambda>f. tokens_of (value_text f)) facts)) = None"
    unfolding index_fact_numbers_eq by (auto split: option.splits)
  have "\<not> flagged idx t" if t: "t \<in> set (tokens_of v)" for t
  proof -
    have "t \<in> set (concat (map (\<lambda>f. tokens_of (value_text f)) facts))"
      using t assms(1) v by auto
    from first_raise_None [OF none this] obtain vs where
      vs: "variants (normalize_number_token t) = Inr vs" by blast
    have "variant_set t \<subseteq> idx"
      using index_contains_variants [OF idx assms(1)] t v by simp
    then have "vs \<subseteq> idx" by (simp add: variant_set_def vs)
    moreover have "normalize_number_token t \<in> vs"
      using vs by (rule variants_contains_input)
    ultimately show ?thesis by (auto simp: flagged_def vs)
  qed
  then have "filter (flagged idx) (tokens_of v) = []"
    by (simp add: filter_empty_conv)
  then show ?thesis by (simp add: r unique_preserve_order_def)
qed

text \<open>
  And the call returns when no fact value has more than 308 characters, so that the round
  trip holds for every such fact list.
\<close>

lemma grounded_round_trip_short:
  assumes "f \<in> set facts" and "fact_value f = Some v"
    and "\<And>g. g \<in> set facts \<Longrightarrow> length (value_text g) \<le> 308"
  shows "assert_numbers_in_facts (Some (ustr ''The stat was '' @ v)) (Some facts) = Inr []"
proof -
  have v: "value_text f = v" using assms(2) by (simp add: value_text_def or_empty_def)
  with assms(1,3) have lv: "length v \<le> 308" by blast
  from index_fact_numbers_returns [OF assms(3)] obtain idx where
    "index_fact_numbers (Some facts) = Inr idx" by blast
  moreover have "first_error (tokens_of v) = None"
    by (rule first_error_return) (use lv token_variants_return in blast)
  ultimately obtain r where
    "assert_numbers_in_facts (Some (ustr ''The stat was '' @ v)) (Some facts) = Inr r"
    by (auto simp: assert_numbers_in_facts_eq or_empty_def tokens_of_prefix)
  with grounded_round_trip_unless_raising [OF assms(1,2) this] show ?thesis by simp
qed

text \<open>
  Claim C5 fails on the code: with the fact value \<open>v\<close> that is the scoreline of
  \<open>10 ^ 309\<close> to \<open>1\<close>, the call on the body \<^verbatim>\<open>The stat was \<close>\<open>v\<close> raises an
  \<^verbatim>\<open>OverflowError\<close> while it indexes the fact, and returns no list.
\<close>

theorem grounded_round_trip_raises:
  "assert_numbers_in_facts (Some (ustr ''The stat was '' @ big_number @ ustr ''-1''))
     (Some [mk_fact (big_number @ ustr ''-1'')]) = Inl OverflowError"
  by (simp add: assert_numbers_in_facts_def index_fact_numbers_def or_empty_def score_parts_def
      value_text_def mk_fact_def scorelines_big_number normalize_digits [OF big_number_digits(2)]
      variants_big_number)

end
